theory Spec2Isabelle
  imports Main "HOL-Library.Sublist"
begin

section \<open>Strings of the page script\<close>

text \<open>
  The script of \<^verbatim>\<open>src/routes/+page.svelte\<close> works on JavaScript strings, which are
  sequences of UTF-16 code units. A string is modelled as the list of its code units,
  integers from 0 to 65535, and \<open>js\<close> writes a string of ASCII characters down.
\<close>

type_synonym js_string = "int list"

definition js :: "string \<Rightarrow> js_string" where
  "js s = map of_char s"

text \<open>
  \<^verbatim>\<open>trim\<close> removes the white space and the line terminators of the language from both
  ends: the code units 9 to 13, 32, 160, 5760, 8192 to 8202, 8232, 8233, 8239, 8287, 12288
  and 65279.
\<close>

definition is_space :: "int \<Rightarrow> bool" where
  "is_space c =
     (c \<in> {9, 10, 11, 12, 13, 32, 160, 5760, 8232, 8233, 8239, 8287, 12288, 65279}
      \<or> (8192 \<le> c \<and> c \<le> 8202))"

definition trim :: "js_string \<Rightarrow> js_string" where
  "trim s = rev (dropWhile is_space (rev (dropWhile is_space s)))"

text \<open>
  \<^verbatim>\<open>toLowerCase\<close> is the engine's. Its table is written out for the code units below 256
  (A to Z, and 192 to 222 without 215, move up by 32) and for 304, the capital I with a
  dot above, whose lower case is the two code units 105 and 775: the result can be
  longer than the string. The other code units are left as they are here: the examples
  below use the code units of the table only, and the partition of a text into parts is
  proved for whatever the lowered strings are.
\<close>

definition to_lower_unit :: "int \<Rightarrow> js_string" where
  "to_lower_unit c =
     (if (65 \<le> c \<and> c \<le> 90) \<or> (192 \<le> c \<and> c \<le> 222 \<and> c \<noteq> 215) then [c + 32]
      else if c = 304 then [105, 775]
      else [c])"

definition toLowerCase :: "js_string \<Rightarrow> js_string" where
  "toLowerCase s = concat (map to_lower_unit s)"

definition is_hex :: "int \<Rightarrow> bool" where
  "is_hex c = ((48 \<le> c \<and> c \<le> 57) \<or> (97 \<le> c \<and> c \<le> 102) \<or> (65 \<le> c \<and> c \<le> 70))"

definition startsWith :: "js_string \<Rightarrow> js_string \<Rightarrow> bool" where
  "startsWith s p = (take (length p) s = p)"

text \<open>
  \<^verbatim>\<open>s.slice(a, b)\<close> and \<^verbatim>\<open>s.slice(a)\<close> for indices that are not negative: both ends
  are clamped to the length, and an end before the start gives the empty string.
\<close>

definition slice :: "js_string \<Rightarrow> nat \<Rightarrow> nat \<Rightarrow> js_string" where
  "slice s a b = take (b - a) (drop a s)"

definition slice_from :: "js_string \<Rightarrow> nat \<Rightarrow> js_string" where
  "slice_from s a = drop a s"

text \<open>
  \<^verbatim>\<open>s.indexOf(q, pos)\<close>: the start is clamped to the length, the smallest index at or
  after it where \<open>q\<close> occurs is returned, and \<open>None\<close> stands for \<open>-1\<close>. The empty
  string is found at the clamped start itself.
\<close>

fun indexOf_scan :: "js_string \<Rightarrow> js_string \<Rightarrow> nat \<Rightarrow> nat option" where
  "indexOf_scan [] q k = (if q = [] then Some k else None)"
| "indexOf_scan (c # cs) q k =
     (if prefix q (c # cs) then Some k else indexOf_scan cs q (Suc k))"

definition indexOf :: "js_string \<Rightarrow> js_string \<Rightarrow> nat \<Rightarrow> nat option" where
  "indexOf s q pos = (let start = min pos (length s) in indexOf_scan (drop start s) q start)"

definition includes_str :: "js_string \<Rightarrow> js_string \<Rightarrow> bool" where
  "includes_str s q = (indexOf s q 0 \<noteq> None)"

text \<open>\<^verbatim>\<open>xs[i]\<close> on an array: \<open>None\<close> stands for \<open>undefined\<close>.\<close>

definition at_index :: "'a list \<Rightarrow> nat \<Rightarrow> 'a option" where
  "at_index xs i = (if i < length xs then Some (xs ! i) else None)"

section \<open>Documents and errors\<close>

text \<open>The fields of \<^verbatim>\<open>NostrEvent\<close> that the script reads.\<close>

record nostr_event =
  id_ev :: js_string
  pubkey :: js_string
  created_at :: int
  kind :: int
  tags :: "js_string list list"
  content :: js_string

text \<open>
  The messages the script stores in \<^verbatim>\<open>error\<close>, one constructor per message:
  \<open>EmptyPublicKey\<close> asks for a public key (line 91), \<open>InvalidNpub\<close> is the message of
  line 67, \<open>InvalidFormat\<close> the one of line 71, \<open>TypeError\<close> is the engine's error for a
  method call on \<^verbatim>\<open>undefined\<close>, and \<open>IteratorError\<close> carries whatever an event iterator
  of the transport throws.
\<close>

datatype error = EmptyPublicKey | InvalidNpub | InvalidFormat | TypeError | IteratorError js_string

section \<open>normalizePubkey\<close>

text \<open>
  \<^verbatim>\<open>nip19.decode\<close> belongs to nostr-tools and is a parameter: \<open>decode s\<close> is \<open>None\<close>
  when the call throws and \<open>Some (type, data)\<close> otherwise.
\<close>

text \<open>The test of line 56: exactly 64 characters, each a hexadecimal digit of either case.\<close>

definition is_hex64 :: "js_string \<Rightarrow> bool" where
  "is_hex64 s = (length s = 64 \<and> list_all is_hex s)"

definition normalizePubkey :: "(js_string \<Rightarrow> (js_string \<times> js_string) option) \<Rightarrow> js_string \<Rightarrow> error + js_string" where
  "normalizePubkey decode input =
     (let trimmed = trim input
      in if is_hex64 trimmed then Inr trimmed
         else if startsWith trimmed (js ''npub'') then
           (case decode trimmed of
              None \<Rightarrow> Inl InvalidNpub
            | Some (ty, dat) \<Rightarrow> if ty = js ''npub'' then Inr dat else Inl InvalidFormat)
         else Inl InvalidFormat)"

text \<open>A decoder that rejects every input, and a key in upper and in lower case.\<close>

definition decode_none :: "js_string \<Rightarrow> (js_string \<times> js_string) option" where
  "decode_none s = None"

definition upper_key :: js_string where
  "upper_key = js ''ABCDEF0123456789ABCDEF0123456789ABCDEF0123456789ABCDEF0123456789''"

definition lower_key :: js_string where
  "lower_key = js ''abcdef0123456789abcdef0123456789abcdef0123456789abcdef0123456789''"

section \<open>extractWriteRelays\<close>

definition defaultRelays :: "js_string list" where
  "defaultRelays = [js ''wss://relay.damus.io'', js ''wss://nos.lol'', js ''wss://yabu.me/'']"

definition metadataRelays :: "js_string list" where
  "metadataRelays = [js ''wss://purplepag.es/'', js ''wss://user.kindpag.es/'', js ''wss://directory.yabu.me/'']"

text \<open>
  The predicate of the filter (line 82). \<^verbatim>\<open>URL.canParse\<close> is the browser's and is a
  parameter. The conjunction is evaluated left to right: a tag whose first element is
  \<^verbatim>\<open>'r'\<close> and that has no second element calls \<^verbatim>\<open>startsWith\<close> on \<^verbatim>\<open>undefined\<close>.
\<close>

definition write_relay_tag :: "(js_string \<Rightarrow> bool) \<Rightarrow> js_string list \<Rightarrow> error + bool" where
  "write_relay_tag canParse tag =
     (if at_index tag 0 \<noteq> Some (js ''r'') then Inr False
      else case at_index tag 1 of
             None \<Rightarrow> Inl TypeError
           | Some url \<Rightarrow>
               Inr (startsWith url (js ''wss://'') \<and> canParse url \<and> at_index tag 2 \<noteq> Some (js ''read'')))"

text \<open>\<^verbatim>\<open>Array.prototype.filter\<close> with a predicate that may throw: the first throw ends it.\<close>

fun filter_tags :: "(js_string \<Rightarrow> bool) \<Rightarrow> js_string list list \<Rightarrow> error + js_string list list" where
  "filter_tags canParse [] = Inr []"
| "filter_tags canParse (tag # rest) =
     (case write_relay_tag canParse tag of
        Inl e \<Rightarrow> Inl e
      | Inr keep \<Rightarrow>
          (case filter_tags canParse rest of
             Inl e \<Rightarrow> Inl e
           | Inr kept \<Rightarrow> Inr (if keep then tag # kept else kept)))"

text \<open>
  The mapping \<^verbatim>\<open>tag => tag[1]\<close> runs on tags that passed the filter only, which have
  a second element.
\<close>

definition extractWriteRelays :: "(js_string \<Rightarrow> bool) \<Rightarrow> nostr_event option \<Rightarrow> error + js_string list" where
  "extractWriteRelays canParse event =
     (case event of
        None \<Rightarrow> Inr defaultRelays
      | Some ev \<Rightarrow>
          if kind ev \<noteq> 10002 then Inr defaultRelays
          else (case filter_tags canParse (tags ev) of
                  Inl e \<Rightarrow> Inl e
                | Inr kept \<Rightarrow>
                    (let writeRelays = map (\<lambda>tag. tag ! 1) kept
                     in Inr (if length writeRelays > 0 then writeRelays else defaultRelays))))"

text \<open>
  What the specification counts as an endpoint of a relay-list document: a tag that is a
  relay reference with a value, the value a secure relay URI that parses, and no
  read-only marker. It is total: a tag without a value is no endpoint.
\<close>

definition write_endpoint :: "(js_string \<Rightarrow> bool) \<Rightarrow> js_string list \<Rightarrow> bool" where
  "write_endpoint canParse tag =
     (case tag of
        t0 # url # rest \<Rightarrow>
          t0 = js ''r'' \<and> startsWith url (js ''wss://'') \<and> canParse url \<and> at_index tag 2 \<noteq> Some (js ''read'')
      | _ \<Rightarrow> False)"

definition canParse_all :: "js_string \<Rightarrow> bool" where
  "canParse_all url = True"

section \<open>The state of the page\<close>

text \<open>
  What the script does to the transport, in order: \<^verbatim>\<open>NostrFetcher.init()\<close>,
  \<^verbatim>\<open>allEventsIterator\<close> with its relays, authors, kinds and the abort signal it was
  given (if any), and \<^verbatim>\<open>shutdown()\<close>.
\<close>

datatype effect =
    FetcherInit
  | AllEventsIterator "js_string list" "js_string list" "int list" "nat option"
  | Shutdown

text \<open>
  The reactive variables of the script. An \<^verbatim>\<open>AbortController\<close> is an object: the store
  \<open>aborted\<close> holds the flag of every controller created so far, and \<open>controller\<close> is the
  address of the one the variable refers to. \<open>transport_log\<close> records the calls on the
  transport.
\<close>

record page_state =
  publicKey :: js_string
  events :: "nostr_event list"
  profileEvents :: "js_string \<rightharpoonup> nostr_event"
  relayListEvent :: "nostr_event option"
  beforeLoad :: bool
  loading :: bool
  error :: "error option"
  searchQuery :: js_string
  controller :: nat
  aborted :: "bool list"
  transport_log :: "effect list"

definition initial_state :: page_state where
  "initial_state =
     \<lparr>publicKey = [], events = [], profileEvents = Map.empty, relayListEvent = None,
      beforeLoad = True, loading = False, error = None, searchQuery = [],
      controller = 0, aborted = [False], transport_log = []\<rparr>"

section \<open>abort\<close>

text \<open>
  Lines 157 to 160: \<^verbatim>\<open>controller.abort()\<close> sets the flag of the object the variable
  refers to, and \<^verbatim>\<open>new AbortController()\<close> allocates an object with the flag unset.
\<close>

definition abort :: "page_state \<Rightarrow> page_state" where
  "abort st =
     (let signalled = (aborted st)[controller st := True]
      in st\<lparr>aborted := signalled @ [False], controller := length signalled\<rparr>)"

text \<open>The states the page reaches by presses of the abort button.\<close>

fun aborts :: "nat \<Rightarrow> page_state \<Rightarrow> page_state" where
  "aborts 0 st = st"
| "aborts (Suc n) st = abort (aborts n st)"

section \<open>The discovery loop\<close>

text \<open>The body of the loop of lines 118 to 130, for one received document.\<close>

definition discovery_step :: "page_state \<Rightarrow> nostr_event \<Rightarrow> page_state" where
  "discovery_step st event =
     (if kind event = 0 then
        (case profileEvents st (pubkey event) of
           None \<Rightarrow> st\<lparr>profileEvents := (profileEvents st)(pubkey event \<mapsto> event)\<rparr>
         | Some existing \<Rightarrow>
             if created_at event > created_at existing
             then st\<lparr>profileEvents := (profileEvents st)(pubkey event \<mapsto> event)\<rparr>
             else st)
      else if kind event = 10002 then
        (case relayListEvent st of
           None \<Rightarrow> st\<lparr>relayListEvent := Some event\<rparr>
         | Some current \<Rightarrow>
             if created_at event > created_at current
             then st\<lparr>relayListEvent := Some event\<rparr>
             else st)
      else st)"

text \<open>
  The loop, for the documents the iterator delivers; \<open>pk\<close> is the normalized key the
  query was made for, in scope in the loop as \<^verbatim>\<open>pubkey\<close>.
\<close>

definition discovery_loop :: "js_string \<Rightarrow> page_state \<Rightarrow> nostr_event list \<Rightarrow> page_state" where
  "discovery_loop pk st delivered = foldl discovery_step st delivered"

section \<open>The streaming merge loop\<close>

text \<open>
  Modelled from the spec: \<^verbatim>\<open>insertEventIntoDescendingList\<close> is imported from
  \<^verbatim>\<open>nostr-tools/utils\<close> and its code is not in the sources; only the call of line 146
  is. The insertion of the specification (4.3): the document goes to the position that
  keeps the timestamps descending, and among equal timestamps the documents already
  there stay in front.
\<close>

fun insert_descending :: "nostr_event \<Rightarrow> nostr_event list \<Rightarrow> nostr_event list" where
  "insert_descending event [] = [event]"
| "insert_descending event (b # bs) =
     (if created_at event > created_at b then event # b # bs
      else b # insert_descending event bs)"

text \<open>
  Modelled from the spec: what is missing is the body of
  \<^verbatim>\<open>insertEventIntoDescendingList\<close>. By the specification (4.3) a document is rejected
  if a document with the same identity is already in the feed, and inserted otherwise.
\<close>

definition insertEventIntoDescendingList :: "nostr_event list \<Rightarrow> nostr_event \<Rightarrow> nostr_event list" where
  "insertEventIntoDescendingList sortedArray event =
     (if list_ex (\<lambda>b. id_ev b = id_ev event) sortedArray then sortedArray
      else insert_descending event sortedArray)"

text \<open>
  Lines 145 to 147: the value of \<^verbatim>\<open>events\<close> when the loop ends, and the values it
  takes after each document.
\<close>

definition merge_loop :: "nostr_event list \<Rightarrow> nostr_event list \<Rightarrow> nostr_event list" where
  "merge_loop feed delivered = foldl insertEventIntoDescendingList feed delivered"

fun feed_snapshots :: "nostr_event list \<Rightarrow> nostr_event list \<Rightarrow> nostr_event list list" where
  "feed_snapshots feed [] = []"
| "feed_snapshots feed (event # rest) =
     (let feed' = insertEventIntoDescendingList feed event
      in feed' # feed_snapshots feed' rest)"

text \<open>The position at which a document identity is first delivered.\<close>

definition first_delivery :: "nostr_event list \<Rightarrow> js_string \<Rightarrow> nat" where
  "first_delivery delivered i = length (takeWhile (\<lambda>e. id_ev e \<noteq> i) delivered)"

text \<open>
  The order of the feed: a later timestamp first, and among equal timestamps the
  document delivered first.
\<close>

definition before_in_feed :: "nostr_event list \<Rightarrow> nostr_event \<Rightarrow> nostr_event \<Rightarrow> bool" where
  "before_in_feed delivered a b =
     (created_at a > created_at b
      \<or> (created_at a = created_at b
         \<and> first_delivery delivered (id_ev a) < first_delivery delivered (id_ev b)))"

section \<open>fetchEvents\<close>

text \<open>
  The transport is a black box. An iterator is given by the documents it delivers and by
  how the iteration ends: the transport signals completion, the abort signal ends it, or
  the iterator throws. The \<^verbatim>\<open>for await\<close> loop ends normally in the first two cases.
\<close>

datatype stream_end = Completed | Cancelled | Throws error

type_synonym stream = "nostr_event list \<times> stream_end"

fun thrown :: "stream_end \<Rightarrow> error option" where
  "thrown Completed = None"
| "thrown Cancelled = None"
| "thrown (Throws e) = Some e"

definition log_effect :: "effect \<Rightarrow> page_state \<Rightarrow> page_state" where
  "log_effect eff st = st\<lparr>transport_log := transport_log st @ [eff]\<rparr>"

text \<open>
  The \<^verbatim>\<open>try\<close> block, lines 105 to 147: the state when the block is left, and the error
  it is left with, if any. Assignments made before a throw stay.
\<close>

definition fetch_try ::
  "(js_string \<Rightarrow> (js_string \<times> js_string) option) \<Rightarrow> (js_string \<Rightarrow> bool) \<Rightarrow> stream \<Rightarrow> stream
   \<Rightarrow> page_state \<Rightarrow> page_state \<times> error option" where
  "fetch_try decode canParse discovery posts st =
     (case normalizePubkey decode (publicKey st) of
        Inl e \<Rightarrow> (st, Some e)
      | Inr pk \<Rightarrow>
          (let st1 = log_effect (AllEventsIterator metadataRelays [pk] [0, 10002] None) st;
               st2 = discovery_loop pk st1 (fst discovery)
           in case thrown (snd discovery) of
                Some e \<Rightarrow> (st2, Some e)
              | None \<Rightarrow>
                  (case extractWriteRelays canParse (relayListEvent st2) of
                     Inl e \<Rightarrow> (st2, Some e)
                   | Inr writeRelays \<Rightarrow>
                       (let st3 = log_effect
                                    (AllEventsIterator writeRelays [pk] [1] (Some (controller st2))) st2;
                            st4 = st3\<lparr>events := merge_loop (events st3) (fst posts)\<rparr>
                        in (st4, thrown (snd posts))))))"

text \<open>Lines 89 to 155: the early return, the reset, the block, \<^verbatim>\<open>catch\<close> and \<^verbatim>\<open>finally\<close>.\<close>

definition fetchEvents ::
  "(js_string \<Rightarrow> (js_string \<times> js_string) option) \<Rightarrow> (js_string \<Rightarrow> bool) \<Rightarrow> stream \<Rightarrow> stream
   \<Rightarrow> page_state \<Rightarrow> page_state" where
  "fetchEvents decode canParse discovery posts st =
     (if trim (publicKey st) = [] then st\<lparr>error := Some EmptyPublicKey\<rparr>
      else
        (let st0 = st\<lparr>beforeLoad := False, loading := True, error := None, events := [],
                      profileEvents := Map.empty, relayListEvent := None, searchQuery := []\<rparr>;
             st1 = log_effect FetcherInit st0;
             (st2, err) = fetch_try decode canParse discovery posts st1;
             st3 = (case err of None \<Rightarrow> st2 | Some e \<Rightarrow> st2\<lparr>error := Some e\<rparr>);
             st4 = log_effect Shutdown st3
         in st4\<lparr>loading := False\<rparr>))"

text \<open>The signal handed to the iterator of the posts, if the fetch got that far.\<close>

fun post_signal :: "effect list \<Rightarrow> nat option" where
  "post_signal [] = None"
| "post_signal (AllEventsIterator relays authors kinds (Some sig) # rest) = Some sig"
| "post_signal (eff # rest) = post_signal rest"

section \<open>Search and highlight\<close>

text \<open>Lines 35 to 44.\<close>

definition filteredEvents :: "nostr_event list \<Rightarrow> js_string \<Rightarrow> nostr_event list" where
  "filteredEvents evs query_input =
     (let kind1Events = filter (\<lambda>event. kind event = 1) evs
      in if trim query_input = [] then kind1Events
         else (let query = toLowerCase (trim query_input)
               in filter (\<lambda>event. includes_str (toLowerCase (content event)) query) kind1Events))"

datatype part = Part (part_text: js_string) (isMatch: bool)

text \<open>
  The \<^verbatim>\<open>while\<close> loop of lines 179 to 187, with \<open>qlen\<close> for \<^verbatim>\<open>query.length\<close>. The result
  is the list of parts and \<^verbatim>\<open>lastIndex\<close> when the loop ends; \<open>None\<close> is a loop that
  never ends.
\<close>

partial_function (option) highlight_loop ::
  "js_string \<Rightarrow> js_string \<Rightarrow> js_string \<Rightarrow> nat \<Rightarrow> nat \<Rightarrow> part list \<Rightarrow> (part list \<times> nat) option" where
  "highlight_loop text' textLower queryLower qlen lastIndex parts =
     (case indexOf textLower queryLower lastIndex of
        None \<Rightarrow> Some (parts, lastIndex)
      | Some index \<Rightarrow>
          highlight_loop text' textLower queryLower qlen (index + qlen)
            (parts
             @ (if index > lastIndex then [Part (slice text' lastIndex index) False] else [])
             @ [Part (slice text' index (index + qlen)) True]))"

text \<open>Lines 166 to 194.\<close>

definition splitTextForHighlight :: "js_string \<Rightarrow> js_string \<Rightarrow> part list option" where
  "splitTextForHighlight text' query =
     (if trim query = [] then Some [Part text' False]
      else
        (case highlight_loop text' (toLowerCase text') (toLowerCase (trim query)) (length query) 0 [] of
           None \<Rightarrow> None
         | Some (parts, lastIndex) \<Rightarrow>
             (let parts' = (if lastIndex < length text'
                            then parts @ [Part (slice_from text' lastIndex) False] else parts)
              in Some (if length parts' > 0 then parts' else [Part text' False]))))"

text \<open>
  Line 343 of the template: the parts shown for a document of the filtered view, for the
  content of the search box.
\<close>

definition highlight_parts :: "nostr_event \<Rightarrow> js_string \<Rightarrow> part list option" where
  "highlight_parts event query_input = splitTextForHighlight (content event) (trim query_input)"

text \<open>
  The highlight spans of a list of parts: the offsets, in the concatenated text, that the
  matching parts cover.
\<close>

fun spans_from :: "nat \<Rightarrow> part list \<Rightarrow> (nat \<times> nat) list" where
  "spans_from off [] = []"
| "spans_from off (p # ps) =
     (if isMatch p then [(off, off + length (part_text p))] else [])
     @ spans_from (off + length (part_text p)) ps"

definition highlight_spans :: "nostr_event \<Rightarrow> js_string \<Rightarrow> (nat \<times> nat) list option" where
  "highlight_spans event query_input = map_option (spans_from 0) (highlight_parts event query_input)"

text \<open>
  The specification's scan (4.5), written on its own: from offset \<open>off\<close>, with \<open>rest\<close>
  the payload from there on, every occurrence of the query is recorded left to right
  and the scan goes on after it; where the query does not occur the scan moves on by one
  character. Both arguments are already in lower case.
\<close>

function occurrence_spans :: "js_string \<Rightarrow> nat \<Rightarrow> js_string \<Rightarrow> (nat \<times> nat) list" where
  "occurrence_spans q off rest =
     (if q = [] \<or> rest = [] then []
      else if prefix q rest
           then (off, off + length q) # occurrence_spans q (off + length q) (drop (length q) rest)
           else occurrence_spans q (Suc off) (tl rest))"
  by pat_completeness auto
termination
  by (relation "measure (\<lambda>(q, off, rest). length rest)") auto

declare occurrence_spans.simps [simp del]

section \<open>A fetch between its awaits\<close>

text \<open>
  \<^verbatim>\<open>fetchEvents\<close> is an asynchronous function: it gives the control back at every
  \<^verbatim>\<open>await\<close>, that is before each document of the two iterators (lines 118 and 145) and
  at their ends, and the abort button, shown as soon as \<^verbatim>\<open>loading\<close> is set, may be
  pressed there. A fetch under way is described by where it stands: in the discovery
  loop, with the normalized key, the documents still to come, the way that iterator ends
  and what the relays hold for the posts iterator; or in the merge loop, with the signal
  it handed to the transport at line 142, the posts still to come and the way the
  iterator ends if it is not cancelled.
\<close>

datatype fetch_task =
    NotRunning
  | Discovering js_string "nostr_event list" stream_end stream
  | Merging nat "nostr_event list" stream_end

text \<open>The \<^verbatim>\<open>catch\<close> and \<^verbatim>\<open>finally\<close> blocks, lines 148 to 154.\<close>

definition finish :: "error option \<Rightarrow> page_state \<Rightarrow> page_state" where
  "finish err st =
     (log_effect Shutdown (case err of None \<Rightarrow> st | Some e \<Rightarrow> st\<lparr>error := Some e\<rparr>))
       \<lparr>loading := False\<rparr>"

text \<open>Lines 89 to 116: from the press of the fetch button to the first \<^verbatim>\<open>await\<close>.\<close>

definition fetch_start ::
  "(js_string \<Rightarrow> (js_string \<times> js_string) option) \<Rightarrow> stream \<Rightarrow> stream \<Rightarrow> page_state
   \<Rightarrow> page_state \<times> fetch_task" where
  "fetch_start decode discovery posts st =
     (if trim (publicKey st) = [] then (st\<lparr>error := Some EmptyPublicKey\<rparr>, NotRunning)
      else
        (let st0 = st\<lparr>beforeLoad := False, loading := True, error := None, events := [],
                      profileEvents := Map.empty, relayListEvent := None, searchQuery := []\<rparr>;
             st1 = log_effect FetcherInit st0
         in case normalizePubkey decode (publicKey st1) of
              Inl e \<Rightarrow> (finish (Some e) st1, NotRunning)
            | Inr pk \<Rightarrow>
                (log_effect (AllEventsIterator metadataRelays [pk] [0, 10002] None) st1,
                 Discovering pk (fst discovery) (snd discovery) posts)))"

definition signalled :: "page_state \<Rightarrow> nat \<Rightarrow> bool" where
  "signalled st sig = (sig < length (aborted st) \<and> aborted st ! sig)"

text \<open>
  Modelled from the spec: the iterator of the transport is not in the sources. By 4.3
  and 7 the cancel token is looked at at each iteration boundary, and once it is
  signalled the iteration ends without an error: the \<^verbatim>\<open>await\<close> of line 145 then
  finds the iterator at its end.
\<close>

definition iterator_cancelled :: "page_state \<Rightarrow> nat \<Rightarrow> bool" where
  "iterator_cancelled st sig = signalled st sig"

text \<open>
  One turn of the fetch, from one \<^verbatim>\<open>await\<close> to the next: a document of the discovery
  loop (lines 119 to 129); the end of that loop, the choice of the relays and the
  opening of the posts iterator with the signal of the controller the variable refers to
  at that moment (lines 132 to 143); a post (line 146); the end of the fetch.
\<close>

fun fetch_turn :: "(js_string \<Rightarrow> bool) \<Rightarrow> page_state \<times> fetch_task \<Rightarrow> page_state \<times> fetch_task" where
  "fetch_turn canParse (st, NotRunning) = (st, NotRunning)"
| "fetch_turn canParse (st, Discovering pk (event # rest) ending posts) =
     (discovery_step st event, Discovering pk rest ending posts)"
| "fetch_turn canParse (st, Discovering pk [] ending posts) =
     (case thrown ending of
        Some e \<Rightarrow> (finish (Some e) st, NotRunning)
      | None \<Rightarrow>
          (case extractWriteRelays canParse (relayListEvent st) of
             Inl e \<Rightarrow> (finish (Some e) st, NotRunning)
           | Inr writeRelays \<Rightarrow>
               (log_effect (AllEventsIterator writeRelays [pk] [1] (Some (controller st))) st,
                Merging (controller st) (fst posts) (snd posts))))"
| "fetch_turn canParse (st, Merging sig delivered ending) =
     (if iterator_cancelled st sig then (finish None st, NotRunning)
      else (case delivered of
              [] \<Rightarrow> (finish (thrown ending) st, NotRunning)
            | event # rest \<Rightarrow>
                (st\<lparr>events := insertEventIntoDescendingList (events st) event\<rparr>,
                 Merging sig rest ending)))"

text \<open>What happens on the page while a fetch is under way: the abort button, or a turn.\<close>

datatype action = PressAbort | Turn

fun act :: "(js_string \<Rightarrow> bool) \<Rightarrow> page_state \<times> fetch_task \<Rightarrow> action \<Rightarrow> page_state \<times> fetch_task" where
  "act canParse (st, task) PressAbort = (abort st, task)"
| "act canParse (st, task) Turn = fetch_turn canParse (st, task)"

definition run :: "(js_string \<Rightarrow> bool) \<Rightarrow> action list \<Rightarrow> page_state \<times> fetch_task \<Rightarrow> page_state \<times> fetch_task" where
  "run canParse acts cfg = foldl (act canParse) cfg acts"

section \<open>Notions used in the statements\<close>

text \<open>A relay reference without a value: the tag the filter of line 82 cannot read.\<close>

definition valueless_tag :: "js_string list \<Rightarrow> bool" where
  "valueless_tag tag = (at_index tag 0 = Some (js ''r'') \<and> at_index tag 1 = None)"

text \<open>The calls one run of \<^verbatim>\<open>fetchEvents\<close> makes on the transport.\<close>

definition fetch_effects ::
  "(js_string \<Rightarrow> (js_string \<times> js_string) option) \<Rightarrow> (js_string \<Rightarrow> bool) \<Rightarrow> stream \<Rightarrow> stream
   \<Rightarrow> page_state \<Rightarrow> effect list" where
  "fetch_effects decode canParse discovery posts st =
     drop (length (transport_log st)) (transport_log (fetchEvents decode canParse discovery posts st))"

text \<open>Two states that agree on every variable the page shows.\<close>

definition same_page :: "page_state \<Rightarrow> page_state \<Rightarrow> bool" where
  "same_page s t =
     (publicKey s = publicKey t \<and> events s = events t \<and> profileEvents s = profileEvents t
      \<and> relayListEvent s = relayListEvent t \<and> beforeLoad s = beforeLoad t
      \<and> loading s = loading t \<and> error s = error t \<and> searchQuery s = searchQuery t)"

text \<open>
  What holds of the feed after the documents \<open>ds\<close> have been delivered: it holds the
  identities delivered, each once, in the order of the feed.
\<close>

definition feed_ok :: "nostr_event list \<Rightarrow> nostr_event list \<Rightarrow> bool" where
  "feed_ok ds feed =
     (id_ev ` set feed = id_ev ` set ds \<and> distinct (map id_ev feed)
      \<and> sorted_wrt (before_in_feed ds) feed)"




section \<open>Example documents and states\<close>

text \<open>
  Relay-list documents: one whose only tag is \<^verbatim>\<open>["r"]\<close>, one with a good tag and such a
  tag, the one of the scenario of the specification, one whose endpoints are all marked
  \<^verbatim>\<open>read\<close>, and two of different authors and ages.
\<close>

definition valueless_relay_list :: nostr_event where
  "valueless_relay_list =
     \<lparr>id_ev = js ''e1'', pubkey = js ''aa'', created_at = 100, kind = 10002,
      tags = [[js ''r'']], content = []\<rparr>"

definition truncated_relay_list :: nostr_event where
  "truncated_relay_list =
     \<lparr>id_ev = js ''e2'', pubkey = js ''aa'', created_at = 100, kind = 10002,
      tags = [[js ''r'', js ''wss://a.example''], [js ''r'']], content = []\<rparr>"

definition scenario_relay_list :: nostr_event where
  "scenario_relay_list =
     \<lparr>id_ev = js ''e3'', pubkey = js ''aa'', created_at = 100, kind = 10002,
      tags = [[js ''r'', js ''wss://a.example'', js ''write''], [js ''r'', js ''wss://b.example'', js ''read'']],
      content = []\<rparr>"

definition read_only_relay_list :: nostr_event where
  "read_only_relay_list =
     \<lparr>id_ev = js ''e4'', pubkey = js ''aa'', created_at = 100, kind = 10002,
      tags = [[js ''r'', js ''wss://a.example'', js ''read''], [js ''r'', js ''wss://b.example'', js ''read'']],
      content = []\<rparr>"

definition target_relay_list :: nostr_event where
  "target_relay_list =
     \<lparr>id_ev = js ''e6'', pubkey = js ''aa'', created_at = 100, kind = 10002,
      tags = [[js ''r'', js ''wss://a.example'']], content = []\<rparr>"

definition foreign_relay_list :: nostr_event where
  "foreign_relay_list =
     \<lparr>id_ev = js ''e5'', pubkey = js ''bb'', created_at = 200, kind = 10002,
      tags = [[js ''r'', js ''wss://c.example'']], content = []\<rparr>"

text \<open>Posts: two with the same timestamp, a later one, and the payload of the example of 4.5.\<close>

definition post_a :: nostr_event where
  "post_a = \<lparr>id_ev = js ''a'', pubkey = js ''aa'', created_at = 5, kind = 1, tags = [], content = js ''first''\<rparr>"

definition post_b :: nostr_event where
  "post_b = \<lparr>id_ev = js ''b'', pubkey = js ''aa'', created_at = 5, kind = 1, tags = [], content = js ''second''\<rparr>"

definition post_c :: nostr_event where
  "post_c = \<lparr>id_ev = js ''c'', pubkey = js ''aa'', created_at = 7, kind = 1, tags = [], content = js ''third''\<rparr>"

definition concatcat_post :: nostr_event where
  "concatcat_post =
     \<lparr>id_ev = js ''p1'', pubkey = js ''aa'', created_at = 10, kind = 1, tags = [], content = js ''concatcat''\<rparr>"

text \<open>A post whose payload is the capital I with a dot above, then \<^verbatim>\<open>x\<close>.\<close>

definition dotted_post :: nostr_event where
  "dotted_post =
     \<lparr>id_ev = js ''p2'', pubkey = js ''aa'', created_at = 11, kind = 1, tags = [],
      content = [304, 120]\<rparr>"

text \<open>The page with a hexadecimal key entered, and with an npub that does not decode.\<close>

definition hex_state :: page_state where
  "hex_state = initial_state\<lparr>publicKey := lower_key\<rparr>"

definition npub_state :: page_state where
  "npub_state = initial_state\<lparr>publicKey := js ''npub1xyz''\<rparr>"



section \<open>Properties of normalizePubkey\<close>

lemma startsWith_npub_not_hex: "startsWith s (js ''npub'') \<Longrightarrow> \<not> is_hex64 s"
proof
  assume a: "startsWith s (js ''npub'')" and h: "is_hex64 s"
  from a obtain r where "s = 110 # r"
    by (cases s) (auto simp: startsWith_def js_def)
  with h show False by (simp add: is_hex64_def is_hex_def)
qed

text \<open>
  C4, as amended: an input that, once trimmed, is exactly 64 hexadecimal characters of
  either case is accepted, and the result is the trimmed input itself, in the case it
  was entered in.
\<close>

theorem normalizePubkey_hex_unchanged:
  "is_hex64 (trim input) \<Longrightarrow> normalizePubkey decode input = Inr (trim input)"
  by (simp add: normalizePubkey_def Let_def)

theorem normalizePubkey_hex_unchanged_witness:
  "is_hex64 (trim (js ''  '' @ upper_key @ js '' ''))
   \<and> normalizePubkey decode_none (js ''  '' @ upper_key @ js '' '') = Inr upper_key"
proof -
  have t: "trim (js ''  '' @ upper_key @ js '' '') = upper_key" by code_simp
  have h: "is_hex64 (trim (js ''  '' @ upper_key @ js '' ''))" by code_simp
  from normalizePubkey_hex_unchanged [OF h, of decode_none] h t show ?thesis by simp
qed

text \<open>
  C4 as stated promises a result in canonical case. An upper-case key and the same key
  in lower case are both returned as they are, so the two results differ.
\<close>

theorem normalizePubkey_case_counterexample:
  "is_hex64 upper_key \<and> normalizePubkey decode_none upper_key = Inr upper_key
   \<and> toLowerCase upper_key = lower_key \<and> upper_key \<noteq> lower_key
   \<and> normalizePubkey decode_none lower_key = Inr lower_key"
  by code_simp

text \<open>
  C5: an input that starts with \<^verbatim>\<open>npub\<close> once trimmed and that the decoder rejects fails
  with the message for a malformed npub; an input that is neither 64 hexadecimal
  characters nor starts with \<^verbatim>\<open>npub\<close> fails with the message for an unrecognized format;
  the function succeeds on no other inputs than the 64 hexadecimal characters and the
  decodable npub forms, and a result is the whole trimmed input or the decoder's payload,
  never a part of the input.
\<close>

theorem normalizePubkey_failures:
  "(startsWith (trim input) (js ''npub'') \<and> decode (trim input) = None
      \<longrightarrow> normalizePubkey decode input = Inl InvalidNpub)
   \<and> (\<not> is_hex64 (trim input) \<and> \<not> startsWith (trim input) (js ''npub'')
      \<longrightarrow> normalizePubkey decode input = Inl InvalidFormat)
   \<and> ((\<exists>r. normalizePubkey decode input = Inr r)
      \<longleftrightarrow> is_hex64 (trim input)
          \<or> (startsWith (trim input) (js ''npub'') \<and> (\<exists>d. decode (trim input) = Some (js ''npub'', d))))
   \<and> (\<forall>r. normalizePubkey decode input = Inr r
      \<longrightarrow> (is_hex64 (trim input) \<and> r = trim input)
          \<or> (startsWith (trim input) (js ''npub'') \<and> decode (trim input) = Some (js ''npub'', r)))"
  using startsWith_npub_not_hex [of "trim input"]
  by (auto simp: normalizePubkey_def Let_def split: option.splits if_splits)

theorem normalizePubkey_failures_witness:
  "startsWith (trim (js '' npub1xyz '')) (js ''npub'') \<and> decode_none (trim (js '' npub1xyz '')) = None
   \<and> normalizePubkey decode_none (js '' npub1xyz '') = Inl InvalidNpub
   \<and> \<not> is_hex64 (trim (js ''abcdef0123'')) \<and> \<not> startsWith (trim (js ''abcdef0123'')) (js ''npub'')
   \<and> normalizePubkey decode_none (js ''abcdef0123'') = Inl InvalidFormat"
proof -
  have a: "startsWith (trim (js '' npub1xyz '')) (js ''npub'')" by code_simp
  have b: "decode_none (trim (js '' npub1xyz '')) = None" by (simp add: decode_none_def)
  have c: "\<not> is_hex64 (trim (js ''abcdef0123''))" by code_simp
  have d: "\<not> startsWith (trim (js ''abcdef0123'')) (js ''npub'')" by code_simp
  from normalizePubkey_failures [of "js '' npub1xyz ''" decode_none]
       normalizePubkey_failures [of "js ''abcdef0123''" decode_none] a b c d
  show ?thesis by blast
qed

section \<open>Properties of extractWriteRelays\<close>

lemma write_relay_tag_cases:
  "write_relay_tag canParse tag =
     (if valueless_tag tag then Inl TypeError else Inr (write_endpoint canParse tag))"
  by (cases tag; cases "tl tag")
     (auto simp: write_relay_tag_def valueless_tag_def write_endpoint_def at_index_def
           split: option.splits)

lemma filter_tags_cases:
  "filter_tags canParse ts =
     (if list_ex valueless_tag ts then Inl TypeError
      else Inr (filter (write_endpoint canParse) ts))"
  by (induction ts) (auto simp: write_relay_tag_cases)

text \<open>
  Where every relay reference has a value the fallback works as the specification says:
  no endpoint gives the default relays, and a returned relay set is never empty.
\<close>

lemma extractWriteRelays_fallback:
  assumes "\<not> list_ex valueless_tag (tags ev)"
    and "filter (write_endpoint canParse) (tags ev) = []"
  shows "extractWriteRelays canParse (Some ev) = Inr defaultRelays"
  using assms by (simp add: extractWriteRelays_def filter_tags_cases)

lemma extractWriteRelays_no_document:
  "extractWriteRelays canParse None = Inr defaultRelays"
  "kind ev \<noteq> 10002 \<Longrightarrow> extractWriteRelays canParse (Some ev) = Inr defaultRelays"
  by (simp_all add: extractWriteRelays_def)

lemma extractWriteRelays_nonempty:
  "extractWriteRelays canParse event = Inr rs \<Longrightarrow> rs \<noteq> []"
  by (auto simp: extractWriteRelays_def defaultRelays_def filter_tags_cases Let_def
           split: option.splits if_splits)

lemma extractWriteRelays_read_only:
  "extractWriteRelays canParse_all (Some read_only_relay_list) = Inr defaultRelays"
  by code_simp

lemma extractWriteRelays_scenario:
  "extractWriteRelays canParse_all (Some scenario_relay_list) = Inr [js ''wss://a.example'']"
  by code_simp

text \<open>
  C2: a relay-list document with no qualifying endpoint is to give the default relays. The
  document whose only tag is \<^verbatim>\<open>["r"]\<close> has none, and the function throws on it instead
  of returning the defaults.
\<close>

theorem extractWriteRelays_valueless_tag:
  "kind valueless_relay_list = 10002
   \<and> filter (write_endpoint canParse_all) (tags valueless_relay_list) = []
   \<and> extractWriteRelays canParse_all (Some valueless_relay_list) = Inl TypeError"
  by code_simp

text \<open>
  C10: on a relay-list document the function returns exactly when every tag whose first
  element is \<^verbatim>\<open>"r"\<close> has a second element, and it throws the engine's type error
  exactly when some such tag has none.
\<close>

theorem extractWriteRelays_total_iff:
  "kind ev = 10002 \<Longrightarrow>
     ((\<exists>rs. extractWriteRelays canParse (Some ev) = Inr rs)
        \<longleftrightarrow> (\<forall>tag \<in> set (tags ev). at_index tag 0 = Some (js ''r'') \<longrightarrow> at_index tag 1 \<noteq> None))
     \<and> (extractWriteRelays canParse (Some ev) = Inl TypeError
        \<longleftrightarrow> (\<exists>tag \<in> set (tags ev). at_index tag 0 = Some (js ''r'') \<and> at_index tag 1 = None))"
  by (auto simp: extractWriteRelays_def filter_tags_cases list_ex_iff valueless_tag_def)

theorem extractWriteRelays_total_iff_witness:
  "kind truncated_relay_list = 10002
   \<and> [js ''r''] \<in> set (tags truncated_relay_list)
   \<and> at_index [js ''r''] 0 = Some (js ''r'') \<and> at_index [js ''r''] 1 = (None :: js_string option)
   \<and> extractWriteRelays canParse_all (Some truncated_relay_list) = Inl TypeError
   \<and> kind scenario_relay_list = 10002
   \<and> (\<exists>rs. extractWriteRelays canParse_all (Some scenario_relay_list) = Inr rs)"
proof -
  have k1: "kind truncated_relay_list = 10002" by code_simp
  have m1: "[js ''r''] \<in> set (tags truncated_relay_list)" by (simp add: truncated_relay_list_def)
  have a1: "at_index [js ''r''] 0 = Some (js ''r'') \<and> at_index [js ''r''] 1 = (None :: js_string option)"
    by (simp add: at_index_def)
  have k2: "kind scenario_relay_list = 10002" by code_simp
  have w2: "\<forall>tag \<in> set (tags scenario_relay_list). at_index tag 0 = Some (js ''r'') \<longrightarrow> at_index tag 1 \<noteq> None"
    by (simp add: scenario_relay_list_def at_index_def)
  from extractWriteRelays_total_iff [OF k1, of canParse_all]
       extractWriteRelays_total_iff [OF k2, of canParse_all] k1 m1 a1 k2 w2
  show ?thesis by blast
qed

section \<open>Properties of the discovery loop\<close>

lemma discovery_step_relayList:
  "relayListEvent (discovery_step st e) =
     (if kind e = 10002
         \<and> (case relayListEvent st of None \<Rightarrow> True | Some c \<Rightarrow> created_at e > created_at c)
      then Some e else relayListEvent st)"
  by (auto simp: discovery_step_def split: option.splits)

lemma discovery_loop_snoc:
  "discovery_loop pk st (ds @ [e]) = discovery_step (discovery_loop pk st ds) e"
  by (simp add: discovery_loop_def)

text \<open>
  C3 as stated: a relay-list document of another author never replaces the snapshot
  kept for the requested author. The loop has no test on the author: after the
  requested author's document, a newer one signed by another author takes its place.
\<close>

theorem discovery_foreign_author_counterexample:
  "pubkey target_relay_list = js ''aa'' \<and> pubkey foreign_relay_list \<noteq> js ''aa''
   \<and> relayListEvent (discovery_loop (js ''aa'') initial_state [target_relay_list]) = Some target_relay_list
   \<and> relayListEvent (discovery_loop (js ''aa'') initial_state [target_relay_list, foreign_relay_list])
       = Some foreign_relay_list"
  by code_simp

text \<open>
  C3, as amended: started with no snapshot, the discovery loop keeps a received relay-list
  document whose timestamp is the greatest among all received relay-list documents,
  whoever its author is, and keeps none only if none was received; the loop does not
  depend on the requested identity.
\<close>

theorem discovery_keeps_newest_relay_list:
  "relayListEvent st = None \<Longrightarrow>
     (case relayListEvent (discovery_loop pk st delivered) of
        None \<Rightarrow> \<forall>e \<in> set delivered. kind e \<noteq> 10002
      | Some r \<Rightarrow> r \<in> set delivered \<and> kind r = 10002
                 \<and> (\<forall>e \<in> set delivered. kind e = 10002 \<longrightarrow> created_at e \<le> created_at r))
     \<and> discovery_loop pk st delivered = discovery_loop pk' st delivered"
proof (induction delivered rule: rev_induct)
  case Nil
  then show ?case by (simp add: discovery_loop_def)
next
  case (snoc e ds)
  then show ?case
    by (auto simp: discovery_loop_snoc discovery_step_relayList split: option.splits)
qed

theorem discovery_keeps_newest_relay_list_witness:
  "relayListEvent initial_state = None
   \<and> relayListEvent (discovery_loop (js ''aa'') initial_state [target_relay_list, foreign_relay_list])
       = Some foreign_relay_list
   \<and> foreign_relay_list \<in> set [target_relay_list, foreign_relay_list]
   \<and> kind foreign_relay_list = 10002 \<and> kind target_relay_list = 10002
   \<and> created_at target_relay_list \<le> created_at foreign_relay_list"
proof -
  have h: "relayListEvent initial_state = None" by code_simp
  have r: "relayListEvent (discovery_loop (js ''aa'') initial_state [target_relay_list, foreign_relay_list])
       = Some foreign_relay_list" by code_simp
  have k: "kind target_relay_list = 10002" by code_simp
  from discovery_keeps_newest_relay_list
         [OF h, where pk = "js ''aa''" and delivered = "[target_relay_list, foreign_relay_list]"
            and pk' = "js ''aa''"] h r k
  show ?thesis by simp
qed

section \<open>Properties of fetchEvents and abort\<close>

lemma discovery_step_frame:
  "transport_log (discovery_step st e) = transport_log st"
  "controller (discovery_step st e) = controller st"
  "aborted (discovery_step st e) = aborted st"
  "events (discovery_step st e) = events st"
  "publicKey (discovery_step st e) = publicKey st"
  "beforeLoad (discovery_step st e) = beforeLoad st"
  "loading (discovery_step st e) = loading st"
  "error (discovery_step st e) = error st"
  "searchQuery (discovery_step st e) = searchQuery st"
  by (simp_all add: discovery_step_def split: option.splits)

lemma discovery_loop_frame:
  "transport_log (discovery_loop pk st ds) = transport_log st"
  "controller (discovery_loop pk st ds) = controller st"
  "aborted (discovery_loop pk st ds) = aborted st"
  "events (discovery_loop pk st ds) = events st"
  "publicKey (discovery_loop pk st ds) = publicKey st"
  "beforeLoad (discovery_loop pk st ds) = beforeLoad st"
  "loading (discovery_loop pk st ds) = loading st"
  "error (discovery_loop pk st ds) = error st"
  "searchQuery (discovery_loop pk st ds) = searchQuery st"
  by (induction ds rule: rev_induct) (simp_all add: discovery_loop_def discovery_step_frame)

lemma discovery_step_same:
  "profileEvents s = profileEvents t \<Longrightarrow> relayListEvent s = relayListEvent t \<Longrightarrow>
     profileEvents (discovery_step s e) = profileEvents (discovery_step t e)
     \<and> relayListEvent (discovery_step s e) = relayListEvent (discovery_step t e)"
  by (simp add: discovery_step_def split: option.splits)

lemma discovery_loop_same:
  "profileEvents s = profileEvents t \<Longrightarrow> relayListEvent s = relayListEvent t \<Longrightarrow>
     profileEvents (discovery_loop pk s ds) = profileEvents (discovery_loop pk t ds)
     \<and> relayListEvent (discovery_loop pk s ds) = relayListEvent (discovery_loop pk t ds)"
proof (induction ds rule: rev_induct)
  case Nil
  then show ?case by (simp add: discovery_loop_def)
next
  case (snoc e ds)
  then show ?case
    using discovery_step_same [of "discovery_loop pk s ds" "discovery_loop pk t ds" e]
    by (simp add: discovery_loop_def)
qed

text \<open>The calls of the block on the transport.\<close>

lemma fetch_try_log:
  "\<exists>mid. transport_log (fst (fetch_try decode canParse discovery posts st)) = transport_log st @ mid
         \<and> Shutdown \<notin> set mid \<and> FetcherInit \<notin> set mid
         \<and> (\<forall>sig. post_signal mid = Some sig \<longrightarrow> sig = controller st)"
  by (auto simp: fetch_try_def log_effect_def Let_def discovery_loop_frame
           split: sum.splits option.splits)

lemma fetch_try_store:
  "controller (fst (fetch_try decode canParse discovery posts st)) = controller st"
  "aborted (fst (fetch_try decode canParse discovery posts st)) = aborted st"
  by (auto simp: fetch_try_def log_effect_def Let_def discovery_loop_frame
           split: sum.splits option.splits)


lemma fetch_try_same:
  assumes "same_page s t"
  shows "same_page (fst (fetch_try decode canParse discovery posts s))
                   (fst (fetch_try decode canParse discovery posts t))
         \<and> snd (fetch_try decode canParse discovery posts s)
           = snd (fetch_try decode canParse discovery posts t)"
proof (cases "normalizePubkey decode (publicKey s)")
  case (Inl e)
  with assms show ?thesis by (simp add: fetch_try_def same_page_def)
next
  case (Inr pk)
  let ?s1 = "log_effect (AllEventsIterator metadataRelays [pk] [0, 10002] None) s"
  let ?t1 = "log_effect (AllEventsIterator metadataRelays [pk] [0, 10002] None) t"
  from assms have "profileEvents ?s1 = profileEvents ?t1" "relayListEvent ?s1 = relayListEvent ?t1"
    by (simp_all add: same_page_def log_effect_def)
  from discovery_loop_same [OF this, of pk "fst discovery"]
  have d: "profileEvents (discovery_loop pk ?s1 (fst discovery)) = profileEvents (discovery_loop pk ?t1 (fst discovery))"
    "relayListEvent (discovery_loop pk ?s1 (fst discovery)) = relayListEvent (discovery_loop pk ?t1 (fst discovery))"
    by simp_all
  from assms Inr have Inr': "normalizePubkey decode (publicKey t) = Inr pk"
    by (simp add: same_page_def)
  from assms d show ?thesis
    by (simp add: fetch_try_def Inr Inr' Let_def same_page_def discovery_loop_frame log_effect_def
             split: option.splits sum.splits)
qed

lemma fetchEvents_same:
  assumes "same_page s t"
  shows "same_page (fetchEvents decode canParse discovery posts s)
                   (fetchEvents decode canParse discovery posts t)"
proof (cases "trim (publicKey s) = []")
  case True
  with assms show ?thesis by (simp add: fetchEvents_def same_page_def)
next
  case False
  let ?r = "\<lambda>st. log_effect FetcherInit
      (st\<lparr>beforeLoad := False, loading := True, error := None, events := [],
          profileEvents := Map.empty, relayListEvent := None, searchQuery := []\<rparr>)"
  from assms have "same_page (?r s) (?r t)" by (simp add: same_page_def log_effect_def)
  from fetch_try_same [OF this, of decode canParse discovery posts]
  have "same_page (fst (fetch_try decode canParse discovery posts (?r s)))
                  (fst (fetch_try decode canParse discovery posts (?r t)))"
    and "snd (fetch_try decode canParse discovery posts (?r s))
           = snd (fetch_try decode canParse discovery posts (?r t))"
    by simp_all
  moreover from assms False have "trim (publicKey t) \<noteq> []" by (simp add: same_page_def)
  ultimately show ?thesis using False
    by (simp add: fetchEvents_def Let_def split_beta same_page_def log_effect_def split: option.splits)
qed

lemma fetchEvents_log:
  "trim (publicKey st) \<noteq> [] \<Longrightarrow>
     \<exists>mid. transport_log (fetchEvents decode canParse discovery posts st)
             = transport_log st @ FetcherInit # mid @ [Shutdown]
           \<and> Shutdown \<notin> set mid \<and> FetcherInit \<notin> set mid
           \<and> (\<forall>sig. post_signal mid = Some sig \<longrightarrow> sig = controller st)"
proof -
  assume ne: "trim (publicKey st) \<noteq> []"
  let ?s1 = "log_effect FetcherInit
      (st\<lparr>beforeLoad := False, loading := True, error := None, events := [],
          profileEvents := Map.empty, relayListEvent := None, searchQuery := []\<rparr>)"
  from fetch_try_log [of decode canParse discovery posts ?s1]
  obtain mid where m: "transport_log (fst (fetch_try decode canParse discovery posts ?s1)) = transport_log ?s1 @ mid"
    "Shutdown \<notin> set mid" "FetcherInit \<notin> set mid"
    "\<forall>sig. post_signal mid = Some sig \<longrightarrow> sig = controller ?s1" by blast
  have "transport_log (fetchEvents decode canParse discovery posts st)
             = transport_log st @ FetcherInit # mid @ [Shutdown]"
    using ne m(1)
    by (simp add: fetchEvents_def Let_def split_beta log_effect_def split: option.splits)
  with m show ?thesis by (auto simp: log_effect_def)
qed

lemma fetchEvents_blank:
  "trim (publicKey st) = [] \<Longrightarrow>
     fetchEvents decode canParse discovery posts st = st\<lparr>error := Some EmptyPublicKey\<rparr>"
  by (simp add: fetchEvents_def)

lemma fetchEvents_store:
  "controller (fetchEvents decode canParse discovery posts st) = controller st"
  "aborted (fetchEvents decode canParse discovery posts st) = aborted st"
  by (simp_all add: fetchEvents_def Let_def split_beta log_effect_def fetch_try_store split: option.splits)

lemma fetchEvents_loading:
  "trim (publicKey st) \<noteq> [] \<Longrightarrow> \<not> loading (fetchEvents decode canParse discovery posts st)"
  by (simp add: fetchEvents_def Let_def split_beta)

text \<open>
  C8: whatever the decoder, the relays and the two iterators do (normal completion, a
  throw, an invalid identity, cancellation), a run of \<^verbatim>\<open>fetchEvents\<close> that creates a
  transport handle calls \<^verbatim>\<open>shutdown\<close> on it exactly once, as its last call on the
  transport, and leaves \<^verbatim>\<open>loading\<close> unset; the handle is created whenever the public
  key is not blank, and a blank key creates no handle and makes no call at all.
\<close>

theorem fetchEvents_shutdown_once:
  "take (length (transport_log st)) (transport_log (fetchEvents decode canParse discovery posts st))
     = transport_log st
   \<and> count_list (fetch_effects decode canParse discovery posts st) Shutdown
     = count_list (fetch_effects decode canParse discovery posts st) FetcherInit
   \<and> (trim (publicKey st) \<noteq> [] \<longrightarrow>
        count_list (fetch_effects decode canParse discovery posts st) Shutdown = 1
        \<and> hd (fetch_effects decode canParse discovery posts st) = FetcherInit
        \<and> last (fetch_effects decode canParse discovery posts st) = Shutdown
        \<and> \<not> loading (fetchEvents decode canParse discovery posts st))"
proof (cases "trim (publicKey st) = []")
  case True
  then show ?thesis by (simp add: fetch_effects_def fetchEvents_blank)
next
  case False
  from fetchEvents_log [OF False, of decode canParse discovery posts]
  obtain mid where m: "transport_log (fetchEvents decode canParse discovery posts st)
             = transport_log st @ FetcherInit # mid @ [Shutdown]"
    "Shutdown \<notin> set mid" "FetcherInit \<notin> set mid" by blast
  then have e: "fetch_effects decode canParse discovery posts st = FetcherInit # mid @ [Shutdown]"
    by (simp add: fetch_effects_def)
  from m(2,3) have "count_list mid Shutdown = 0" "count_list mid FetcherInit = 0"
    by (simp_all add: count_list_0_iff)
  with e m(1) False fetchEvents_loading [OF False, of decode canParse discovery posts]
  show ?thesis by simp
qed


theorem fetchEvents_shutdown_once_witness:
  "trim (publicKey hex_state) \<noteq> [] \<and> trim (publicKey npub_state) \<noteq> []
   \<and> count_list (fetch_effects decode_none canParse_all ([], Completed) ([], Completed) hex_state) Shutdown = 1
   \<and> count_list (fetch_effects decode_none canParse_all ([], Completed) ([], Cancelled) hex_state) Shutdown = 1
   \<and> count_list (fetch_effects decode_none canParse_all ([], Completed) ([], Completed) npub_state) Shutdown = 1
   \<and> fetch_effects decode_none canParse_all ([], Completed) ([], Completed) npub_state
       = [FetcherInit, Shutdown]
   \<and> error (fetchEvents decode_none canParse_all ([], Completed) ([], Completed) npub_state)
       = Some InvalidNpub"
proof -
  have h: "trim (publicKey hex_state) \<noteq> []" by code_simp
  have n: "trim (publicKey npub_state) \<noteq> []" by code_simp
  have e: "fetch_effects decode_none canParse_all ([], Completed) ([], Completed) npub_state
       = [FetcherInit, Shutdown]" by code_simp
  have r: "error (fetchEvents decode_none canParse_all ([], Completed) ([], Completed) npub_state)
       = Some InvalidNpub" by code_simp
  from fetchEvents_shutdown_once [of hex_state decode_none canParse_all "([], Completed)" "([], Completed)"]
       fetchEvents_shutdown_once [of hex_state decode_none canParse_all "([], Completed)" "([], Cancelled)"]
       fetchEvents_shutdown_once [of npub_state decode_none canParse_all "([], Completed)" "([], Completed)"]
       h n e r
  show ?thesis by simp
qed

lemma post_signal_snoc_Shutdown: "post_signal (xs @ [Shutdown]) = post_signal xs"
  by (induction xs rule: post_signal.induct) simp_all

lemma abort_same_page: "same_page (abort st) st"
  by (simp add: abort_def same_page_def Let_def)

lemma abort_valid:
  "controller st < length (aborted st) \<Longrightarrow>
     controller (abort st) < length (aborted (abort st)) \<and> \<not> aborted (abort st) ! controller (abort st)"
  by (simp add: abort_def Let_def nth_append)

lemma aborts_valid:
  "controller st < length (aborted st) \<Longrightarrow> \<not> aborted st ! controller st \<Longrightarrow>
     controller (aborts n st) < length (aborted (aborts n st))
     \<and> \<not> aborted (aborts n st) ! controller (aborts n st)"
  by (induction n) (simp_all add: abort_valid)

text \<open>
  For a fetch that runs from its start to its end with no press of the abort button in
  between: \<^verbatim>\<open>abort()\<close> before it sets the flag of the controller the variable refers
  to and installs a new one; the fetch hands the new, unsignalled signal to the
  transport, and shows what it would show had the abort not happened.
\<close>

lemma abort_then_fetchEvents:
  assumes "controller st < length (aborted st)"
  shows "aborted (abort st) ! controller st
     \<and> controller (abort st) \<noteq> controller st
     \<and> controller (abort st) < length (aborted (abort st))
     \<and> \<not> aborted (abort st) ! controller (abort st)
     \<and> (\<forall>sig. post_signal (fetch_effects decode canParse discovery posts st) = Some sig
          \<longrightarrow> aborted (abort st) ! sig)
     \<and> (\<forall>sig. post_signal (fetch_effects decode canParse discovery posts (abort st)) = Some sig
          \<longrightarrow> sig = controller (abort st)
              \<and> \<not> aborted (fetchEvents decode canParse discovery posts (abort st)) ! sig)
     \<and> same_page (fetchEvents decode canParse discovery posts (abort st))
                  (fetchEvents decode canParse discovery posts st)"
proof -
  have a: "aborted (abort st) ! controller st"
    using assms by (simp add: abort_def Let_def nth_append)
  have b: "controller (abort st) \<noteq> controller st"
    using assms by (simp add: abort_def Let_def)
  note c = abort_valid [OF assms]
  have d: "\<forall>sig. post_signal (fetch_effects decode canParse discovery posts s) = Some sig
          \<longrightarrow> sig = controller s" for s
  proof (cases "trim (publicKey s) = []")
    case True
    then show ?thesis by (simp add: fetch_effects_def fetchEvents_blank)
  next
    case False
    from fetchEvents_log [OF False, of decode canParse discovery posts]
    obtain mid where m: "transport_log (fetchEvents decode canParse discovery posts s)
             = transport_log s @ FetcherInit # mid @ [Shutdown]"
      "\<forall>sig. post_signal mid = Some sig \<longrightarrow> sig = controller s" by blast
    have "post_signal (FetcherInit # mid @ [Shutdown]) = post_signal mid"
      using post_signal_snoc_Shutdown [of mid] by simp
    with m show ?thesis by (simp add: fetch_effects_def)
  qed
  have e: "same_page (fetchEvents decode canParse discovery posts (abort st))
                  (fetchEvents decode canParse discovery posts st)"
    by (rule fetchEvents_same [OF abort_same_page])
  from a b c d [of st] d [of "abort st"] e show ?thesis by (auto simp: fetchEvents_store)
qed

section \<open>Properties of a fetch between its awaits\<close>

lemma iterator_cancelled_iff [simp]: "iterator_cancelled st sig = signalled st sig"
  by (simp add: iterator_cancelled_def)

















lemma signalled_frame:
  "signalled (log_effect eff st) sig = signalled st sig"
  "signalled (st\<lparr>events := evs\<rparr>) sig = signalled st sig"
  "signalled (discovery_step st e) sig = signalled st sig"
  by (simp_all add: signalled_def log_effect_def discovery_step_frame)







text \<open>
  Left to itself, the fetch in turns ends in the state of \<^verbatim>\<open>fetchEvents\<close> for the
  same relays.
\<close>

lemma run_turns: "run canParse (replicate n Turn) cfg = (fetch_turn canParse ^^ n) cfg"
proof (induction n arbitrary: cfg)
  case 0
  then show ?case by (simp add: run_def)
next
  case (Suc n)
  have "run canParse (replicate (Suc n) Turn) cfg
          = run canParse (replicate n Turn) (fetch_turn canParse cfg)"
    by (cases cfg) (simp add: run_def)
  with Suc show ?case by (simp add: funpow_swap1)
qed

lemma discovering_turns:
  "(fetch_turn canParse ^^ length ds) (st, Discovering pk ds e p)
     = (discovery_loop pk st ds, Discovering pk [] e p)"
  by (induction ds arbitrary: st) (simp_all add: funpow_swap1 discovery_loop_def)

lemma merging_turns:
  "\<not> signalled st sig \<Longrightarrow>
     (fetch_turn canParse ^^ length es) (st, Merging sig es e)
       = (st\<lparr>events := merge_loop (events st) es\<rparr>, Merging sig [] e)"
  by (induction es arbitrary: st) (simp_all add: funpow_swap1 merge_loop_def signalled_frame)

lemma idle_turns: "(fetch_turn canParse ^^ n) (st, NotRunning) = (st, NotRunning)"
  by (induction n) simp_all

lemma fetchEvents_finish:
  "trim (publicKey st) \<noteq> [] \<Longrightarrow>
     fetchEvents decode canParse discovery posts st =
       (case fetch_try decode canParse discovery posts
               (log_effect FetcherInit
                  (st\<lparr>beforeLoad := False, loading := True, error := None, events := [],
                      profileEvents := Map.empty, relayListEvent := None, searchQuery := []\<rparr>)) of
          (st2, err) \<Rightarrow> finish err st2)"
  by (simp add: fetchEvents_def finish_def Let_def split: prod.splits)

lemma turns_reach_fetchEvents:
  assumes "\<not> signalled st (controller st)"
  shows "\<exists>n. run canParse (replicate n Turn) (fetch_start decode discovery posts st)
              = (fetchEvents decode canParse discovery posts st, NotRunning)"
proof (cases "trim (publicKey st) = []")
  case True
  then have "run canParse (replicate 0 Turn) (fetch_start decode discovery posts st)
              = (fetchEvents decode canParse discovery posts st, NotRunning)"
    by (simp add: run_def fetch_start_def fetchEvents_def)
  then show ?thesis by blast
next
  case False
  let ?st1 = "log_effect FetcherInit
                  (st\<lparr>beforeLoad := False, loading := True, error := None, events := [],
                      profileEvents := Map.empty, relayListEvent := None, searchQuery := []\<rparr>)"
  have pk1: "publicKey ?st1 = publicKey st" by (simp add: log_effect_def)
  show ?thesis
  proof (cases "normalizePubkey decode (publicKey st)")
    case (Inl e)
    with False pk1 have "run canParse (replicate 0 Turn) (fetch_start decode discovery posts st)
              = (fetchEvents decode canParse discovery posts st, NotRunning)"
      by (simp add: run_def fetch_start_def fetchEvents_finish fetch_try_def Let_def)
    then show ?thesis by blast
  next
    case (Inr pk)
    let ?s1 = "log_effect (AllEventsIterator metadataRelays [pk] [0, 10002] None) ?st1"
    let ?s2 = "discovery_loop pk ?s1 (fst discovery)"
    from False Inr pk1 have start: "fetch_start decode discovery posts st
        = (?s1, Discovering pk (fst discovery) (snd discovery) posts)"
      by (simp add: fetch_start_def Let_def)
    have d: "(fetch_turn canParse ^^ length (fst discovery)) (fetch_start decode discovery posts st)
        = (?s2, Discovering pk [] (snd discovery) posts)"
      unfolding start by (rule discovering_turns)
    have ctl: "controller ?s2 = controller st" "aborted ?s2 = aborted st"
      by (simp_all add: discovery_loop_frame log_effect_def)
    show ?thesis
    proof (cases "thrown (snd discovery)")
      case (Some e)
      with False Inr pk1 have f: "fetchEvents decode canParse discovery posts st = finish (Some e) ?s2"
        by (simp add: fetchEvents_finish fetch_try_def Let_def)
      have "(fetch_turn canParse ^^ Suc (length (fst discovery))) (fetch_start decode discovery posts st)
              = (finish (Some e) ?s2, NotRunning)"
        using d Some by simp
      with f show ?thesis unfolding run_turns by metis
    next
      case None
      show ?thesis
      proof (cases "extractWriteRelays canParse (relayListEvent ?s2)")
        case (Inl e)
        with None False Inr pk1
        have f: "fetchEvents decode canParse discovery posts st = finish (Some e) ?s2"
          by (simp add: fetchEvents_finish fetch_try_def Let_def)
        have "(fetch_turn canParse ^^ Suc (length (fst discovery))) (fetch_start decode discovery posts st)
              = (finish (Some e) ?s2, NotRunning)"
          using d None Inl by simp
        with f show ?thesis unfolding run_turns by metis
      next
        case (Inr writeRelays)
        let ?s3 = "log_effect (AllEventsIterator writeRelays [pk] [1] (Some (controller ?s2))) ?s2"
        let ?s4 = "?s3\<lparr>events := merge_loop (events ?s3) (fst posts)\<rparr>"
        from None False Inr \<open>normalizePubkey decode (publicKey st) = Inr pk\<close> pk1
        have f: "fetchEvents decode canParse discovery posts st = finish (thrown (snd posts)) ?s4"
          by (simp add: fetchEvents_finish fetch_try_def Let_def)
        have b: "fetch_turn canParse (?s2, Discovering pk [] (snd discovery) posts)
                   = (?s3, Merging (controller ?s2) (fst posts) (snd posts))"
          using None Inr by simp
        from assms ctl have "\<not> signalled ?s3 (controller ?s2)"
          by (simp add: signalled_def log_effect_def)
        from merging_turns [OF this, where canParse = canParse and es = "fst posts" and e = "snd posts"]
        have m: "(fetch_turn canParse ^^ length (fst posts)) (?s3, Merging (controller ?s2) (fst posts) (snd posts))
                   = (?s4, Merging (controller ?s2) [] (snd posts))" .
        from assms ctl have ns: "\<not> signalled ?s4 (controller ?s2)"
          by (simp add: signalled_def log_effect_def)
        have e: "fetch_turn canParse (?s4, Merging (controller ?s2) [] (snd posts))
                   = (finish (thrown (snd posts)) ?s4, NotRunning)"
          using ns by simp
        have s2: "(fetch_turn canParse ^^ Suc (length (fst discovery)))
                    (fetch_start decode discovery posts st)
                  = (?s3, Merging (controller ?s2) (fst posts) (snd posts))"
          using d b by simp
        have s4: "(fetch_turn canParse ^^ Suc (length (fst posts)))
                    (?s3, Merging (controller ?s2) (fst posts) (snd posts))
                  = (finish (thrown (snd posts)) ?s4, NotRunning)"
          using m e by simp
        have "(fetch_turn canParse ^^ (Suc (length (fst posts)) + Suc (length (fst discovery))))
                (fetch_start decode discovery posts st)
                = (finish (thrown (snd posts)) ?s4, NotRunning)"
          by (simp only: funpow_add o_apply s2 s4)
        with f show ?thesis unfolding run_turns by metis
      qed
    qed
  qed
qed






section \<open>Properties of the highlight\<close>

lemma indexOf_scan_Some:
  "indexOf_scan t q k = Some i \<Longrightarrow> k \<le> i \<and> (i - k) + length q \<le> length t \<and> prefix q (drop (i - k) t)"
proof (induction t arbitrary: k)
  case Nil
  then show ?case by (simp split: if_splits)
next
  case (Cons c cs)
  show ?case
  proof (cases "prefix q (c # cs)")
    case True
    with Cons.prems show ?thesis by (auto dest: prefix_length_le)
  next
    case False
    with Cons.prems have "indexOf_scan cs q (Suc k) = Some i" by simp
    from Cons.IH [OF this]
    have ih: "Suc k \<le> i" "(i - Suc k) + length q \<le> length cs" "prefix q (drop (i - Suc k) cs)"
      by blast+
    from ih(1) have "i - k = Suc (i - Suc k)" by arith
    moreover from ih(1,2) have "k \<le> i \<and> (i - k) + length q \<le> length (c # cs)" by simp
    ultimately show ?thesis using ih(3) by simp
  qed
qed

lemma indexOf_Some:
  assumes "indexOf s q pos = Some i" and "q \<noteq> []"
  shows "pos \<le> i \<and> i + length q \<le> length s"
proof -
  let ?st = "min pos (length s)"
  from assms(1) have "indexOf_scan (drop ?st s) q ?st = Some i" by (simp add: indexOf_def Let_def)
  from indexOf_scan_Some [OF this]
  have a: "?st \<le> i" and b: "(i - ?st) + length q \<le> length (drop ?st s)" by blast+
  from b have b': "(i - ?st) + length q \<le> length s - ?st" by simp
  from assms(2) have c: "0 < length q" by simp
  from a b' c show ?thesis by arith
qed

lemma take_slice: "a \<le> b \<Longrightarrow> take a s @ slice s a b = take b s"
  by (metis slice_def le_add_diff_inverse take_add)

lemma highlight_loop_partition:
  assumes "ql \<noteq> []" and "0 < qlen"
  shows "concat (map part_text parts) = take lastIndex t \<Longrightarrow>
         \<exists>parts' li. highlight_loop t low ql qlen lastIndex parts = Some (parts', li)
                      \<and> concat (map part_text parts') = take li t"
proof (induction "length low - lastIndex" arbitrary: lastIndex parts rule: less_induct)
  case less
  show ?case
  proof (cases "indexOf low ql lastIndex")
    case None
    with less.prems show ?thesis by (subst highlight_loop.simps) simp
  next
    case (Some index)
    from indexOf_Some [OF Some assms(1)] assms
    have le: "lastIndex \<le> index" and lt: "index < length low"
      by (cases ql; simp)+
    let ?parts = "parts @ (if index > lastIndex then [Part (slice t lastIndex index) False] else [])
                   @ [Part (slice t index (index + qlen)) True]"
    have "concat (map part_text ?parts) = take lastIndex t @ slice t lastIndex index @ slice t index (index + qlen)"
      using less.prems le by (auto simp: slice_def)
    also have "\<dots> = take (index + qlen) t"
      using le by (simp add: take_slice flip: append_assoc)
    finally have inv: "concat (map part_text ?parts) = take (index + qlen) t" .
    have "length low - (index + qlen) < length low - lastIndex"
      using le lt assms(2) by arith
    from less.hyps [OF this inv]
    show ?thesis by (subst highlight_loop.simps) (simp add: Some)
  qed
qed

lemma trim_Nil [simp]: "trim [] = []"
  by (simp add: trim_def)

lemma toLowerCase_Nil_iff: "toLowerCase s = [] \<longleftrightarrow> s = []"
  by (cases s) (auto simp: toLowerCase_def to_lower_unit_def)

text \<open>
  C9: for every text and every query, \<^verbatim>\<open>splitTextForHighlight\<close> returns, and the
  texts of the parts it returns, put together in order, are the input text.
\<close>

theorem splitTextForHighlight_partition:
  "\<exists>parts. splitTextForHighlight t query = Some parts \<and> concat (map part_text parts) = t"
proof (cases "trim query = []")
  case True
  then show ?thesis by (simp add: splitTextForHighlight_def)
next
  case False
  then have q: "toLowerCase (trim query) \<noteq> []" "0 < length query"
    by (auto simp: toLowerCase_Nil_iff)
  from highlight_loop_partition [OF q, of "[]" 0 t "toLowerCase t"]
  obtain parts li where l: "highlight_loop t (toLowerCase t) (toLowerCase (trim query)) (length query) 0 [] = Some (parts, li)"
    and c: "concat (map part_text parts) = take li t" by auto
  show ?thesis
  proof (cases "li < length t")
    case True
    with False l c show ?thesis by (simp add: splitTextForHighlight_def slice_from_def)
  next
    case False
    with c have "concat (map part_text parts) = t" by simp
    with \<open>trim query \<noteq> []\<close> l False show ?thesis
      by (auto simp: splitTextForHighlight_def)
  qed
qed

lemma last_dropWhile: "dropWhile P xs \<noteq> [] \<Longrightarrow> last (dropWhile P xs) = last xs"
  by (induction xs) (auto split: if_splits)

lemma trim_starts_nonspace: "trim s = [] \<or> \<not> is_space (hd (trim s))"
proof (cases "trim s = []")
  case True
  then show ?thesis by simp
next
  case False
  let ?t = "dropWhile is_space s"
  let ?ys = "dropWhile is_space (rev ?t)"
  from False have ys: "?ys \<noteq> []" by (simp add: trim_def)
  have t: "?t \<noteq> []"
  proof
    assume a: "?t = []"
    have "?ys = []" unfolding a by simp
    with ys show False by contradiction
  qed
  have "hd (trim s) = last ?ys" using ys by (simp add: trim_def hd_rev)
  also have "\<dots> = last (rev ?t)" using ys by (rule last_dropWhile)
  also have "\<dots> = hd ?t" using t by (simp add: last_rev)
  finally have "hd (trim s) = hd ?t" .
  with hd_dropWhile [OF t] show ?thesis by simp
qed

lemma trim_idem: "trim (trim s) = trim s"
proof -
  have "dropWhile is_space (trim s) = trim s"
    using trim_starts_nonspace [of s] by (simp add: dropWhile_eq_self_iff)
  then show ?thesis by (simp add: trim_def)
qed

lemma occurrence_spans_Nil: "occurrence_spans q k [] = []"
  by (subst occurrence_spans.simps) simp

lemma occurrence_spans_Cons:
  "q \<noteq> [] \<Longrightarrow> occurrence_spans q k (c # cs) =
     (if prefix q (c # cs)
      then (k, k + length q) # occurrence_spans q (k + length q) (drop (length q) (c # cs))
      else occurrence_spans q (Suc k) cs)"
  by (subst occurrence_spans.simps) simp

lemma occurrence_spans_scan:
  "q \<noteq> [] \<Longrightarrow>
     occurrence_spans q k rest =
       (case indexOf_scan rest q k of
          None \<Rightarrow> []
        | Some i \<Rightarrow> (i, i + length q)
                    # occurrence_spans q (i + length q) (drop (i - k + length q) rest))"
proof (induction rest arbitrary: k)
  case Nil
  then show ?case by (simp add: occurrence_spans_Nil)
next
  case (Cons c cs)
  note ih = Cons.IH [OF Cons.prems, of "Suc k"]
  show ?case
  proof (cases "prefix q (c # cs)")
    case True
    with Cons.prems show ?thesis by (simp add: occurrence_spans_Cons)
  next
    case False
    show ?thesis
    proof (cases "indexOf_scan cs q (Suc k)")
      case None
      with False Cons.prems ih show ?thesis
        by (simp add: occurrence_spans_Cons)
    next
      case (Some i)
      from indexOf_scan_Some [OF Some] have "Suc k \<le> i" by simp
      then have "i - k + length q = Suc (i - Suc k + length q)" by arith
      with False Cons.prems ih Some show ?thesis
        by (simp add: occurrence_spans_Cons)
    qed
  qed
qed

lemma spans_from_append:
  "spans_from off (ps @ qs) = spans_from off ps @ spans_from (off + length (concat (map part_text ps))) qs"
  by (induction ps arbitrary: off) (simp_all add: add.assoc)

lemma highlight_loop_spans:
  assumes "ql \<noteq> []" and "length low = length t"
  shows "lastIndex \<le> length low \<Longrightarrow> concat (map part_text parts) = take lastIndex t \<Longrightarrow>
         \<exists>parts' li. highlight_loop t low ql (length ql) lastIndex parts = Some (parts', li)
                      \<and> concat (map part_text parts') = take li t
                      \<and> spans_from 0 parts'
                          = spans_from 0 parts @ occurrence_spans ql lastIndex (drop lastIndex low)"
proof (induction "length low - lastIndex" arbitrary: lastIndex parts rule: less_induct)
  case less
  from less.prems(1) have io: "indexOf low ql lastIndex = indexOf_scan (drop lastIndex low) ql lastIndex"
    by (simp add: indexOf_def Let_def min_def)
  show ?case
  proof (cases "indexOf low ql lastIndex")
    case None
    with less.prems io occurrence_spans_scan [OF assms(1), of lastIndex "drop lastIndex low"]
    show ?thesis by (subst highlight_loop.simps) simp
  next
    case (Some index)
    from indexOf_Some [OF Some assms(1)] assms
    have le: "lastIndex \<le> index" and fit: "index + length ql \<le> length t"
      by simp_all
    from assms(1) have qpos: "0 < length ql" by simp
    let ?gap = "if index > lastIndex then [Part (slice t lastIndex index) False] else []"
    let ?match = "Part (slice t index (index + length ql)) True"
    let ?parts = "parts @ ?gap @ [?match]"
    have "concat (map part_text ?parts)
            = take lastIndex t @ slice t lastIndex index @ slice t index (index + length ql)"
      using less.prems le by (auto simp: slice_def)
    also have "\<dots> = take (index + length ql) t"
      using le by (simp add: take_slice flip: append_assoc)
    finally have inv: "concat (map part_text ?parts) = take (index + length ql) t" .
    have m: "length low - (index + length ql) < length low - lastIndex"
      using le fit qpos assms(2) by arith
    have b: "index + length ql \<le> length low" using fit assms(2) by simp
    from less.hyps [OF m b inv]
    obtain parts' li where r:
      "highlight_loop t low ql (length ql) (index + length ql) ?parts = Some (parts', li)"
      "concat (map part_text parts') = take li t"
      "spans_from 0 parts' = spans_from 0 ?parts
          @ occurrence_spans ql (index + length ql) (drop (index + length ql) low)"
      by blast
    have lenp: "length (concat (map part_text parts)) = lastIndex"
      using less.prems assms(2) by simp
    have gaplen: "length (concat (map part_text ?gap)) = index - lastIndex"
      using le fit by (auto simp: slice_def)
    have "spans_from lastIndex (?gap @ [?match]) = [(index, index + length ql)]"
      using le fit by (auto simp: slice_def)
    then have sp: "spans_from 0 ?parts = spans_from 0 parts @ [(index, index + length ql)]"
      using lenp by (simp add: spans_from_append del: append_assoc)
    have "drop (index - lastIndex + length ql) (drop lastIndex low) = drop (index + length ql) low"
      using le by simp
    moreover from io Some have "indexOf_scan (drop lastIndex low) ql lastIndex = Some index"
      by simp
    ultimately have oc: "occurrence_spans ql lastIndex (drop lastIndex low)
                = (index, index + length ql)
                  # occurrence_spans ql (index + length ql) (drop (index + length ql) low)"
      using occurrence_spans_scan [OF assms(1), of lastIndex "drop lastIndex low"] by simp
    have "highlight_loop t low ql (length ql) lastIndex parts = Some (parts', li)"
      using r(1) by (subst highlight_loop.simps) (simp add: Some)
    with r(2,3) sp oc show ?thesis by simp
  qed
qed


lemma includes_str_iff_spans:
  "q \<noteq> [] \<Longrightarrow> includes_str low q \<longleftrightarrow> occurrence_spans q 0 low \<noteq> []"
  using occurrence_spans_scan [of q 0 low]
  by (auto simp: includes_str_def indexOf_def split: option.splits)

text \<open>
  Where lower-casing keeps the length of the payload and of the query, the spans of a
  document are the occurrences the scan of the specification finds.
\<close>

lemma highlight_spans_eq:
  assumes "trim query \<noteq> []"
    and len: "length (toLowerCase (content e)) = length (content e)"
    and ql: "length (toLowerCase (trim query)) = length (trim query)"
  shows "highlight_spans e query
           = Some (occurrence_spans (toLowerCase (trim query)) 0 (toLowerCase (content e)))"
proof -
  let ?t = "content e" and ?ql = "toLowerCase (trim query)"
  from assms(1) have q: "?ql \<noteq> []" by (simp add: toLowerCase_Nil_iff)
  from highlight_loop_spans [OF q len, of 0 "[]"]
  obtain parts li where r:
    "highlight_loop ?t (toLowerCase ?t) ?ql (length ?ql) 0 [] = Some (parts, li)"
    "concat (map part_text parts) = take li ?t"
    "spans_from 0 parts = occurrence_spans ?ql 0 (toLowerCase ?t)"
    by auto
  let ?parts' = "if li < length ?t then parts @ [Part (slice_from ?t li) False] else parts"
  have "spans_from 0 ?parts' = spans_from 0 parts"
    by (simp add: spans_from_append)
  moreover have "spans_from 0 (if length ?parts' > 0 then ?parts' else [Part ?t False])
                   = spans_from 0 ?parts'"
    by auto
  ultimately have "spans_from 0 (if length ?parts' > 0 then ?parts' else [Part ?t False])
                     = occurrence_spans ?ql 0 (toLowerCase ?t)"
    using r(3) by simp
  with assms(1) r(1) show ?thesis
    by (simp add: highlight_spans_def highlight_parts_def splitTextForHighlight_def trim_idem ql
                  Let_def)
qed

lemma toLowerCase_length: "304 \<notin> set s \<Longrightarrow> length (toLowerCase s) = length s"
  by (induction s) (auto simp: toLowerCase_def to_lower_unit_def)

lemma highlight_spans_concatcat:
  "highlight_spans concatcat_post (js ''cat'') = Some [(3, 6), (6, 9)]"
proof -
  have t: "trim (js ''cat'') \<noteq> []" by code_simp
  have l: "length (toLowerCase (content concatcat_post)) = length (content concatcat_post)"
    by code_simp
  have q: "length (toLowerCase (trim (js ''cat''))) = length (trim (js ''cat''))" by code_simp
  have "occurrence_spans (toLowerCase (trim (js ''cat''))) 0 (toLowerCase (content concatcat_post))
          = [(3, 6), (6, 9)]" by code_simp
  with highlight_spans_eq [OF t l q] show ?thesis by simp
qed

text \<open>
  Whatever lower-casing does to the lengths, a document of the feed is in the filtered
  view exactly if it is a post and the list of its spans is not empty.
\<close>

lemma spans_from_Nil_iff: "spans_from off ps = [] \<longleftrightarrow> \<not> list_ex isMatch ps"
  by (induction ps arbitrary: off) auto

lemma highlight_loop_match:
  assumes "ql \<noteq> []" and "0 < qlen"
  shows "\<exists>parts' li. highlight_loop t low ql qlen lastIndex parts = Some (parts', li)
                      \<and> (list_ex isMatch parts'
                           \<longleftrightarrow> list_ex isMatch parts \<or> indexOf low ql lastIndex \<noteq> None)"
proof (induction "length low - lastIndex" arbitrary: lastIndex parts rule: less_induct)
  case less
  show ?case
  proof (cases "indexOf low ql lastIndex")
    case None
    then show ?thesis by (subst highlight_loop.simps) simp
  next
    case (Some index)
    from indexOf_Some [OF Some assms(1)] assms
    have le: "lastIndex \<le> index" and lt: "index < length low"
      by (cases ql; simp)+
    let ?parts = "parts @ (if index > lastIndex then [Part (slice t lastIndex index) False] else [])
                   @ [Part (slice t index (index + qlen)) True]"
    have "length low - (index + qlen) < length low - lastIndex"
      using le lt assms(2) by arith
    from less.hyps [OF this, of ?parts]
    obtain parts' li where r:
      "highlight_loop t low ql qlen (index + qlen) ?parts = Some (parts', li)"
      "list_ex isMatch parts'" by auto
    from r(1) have "highlight_loop t low ql qlen lastIndex parts = Some (parts', li)"
      by (subst highlight_loop.simps) (simp add: Some)
    with r(2) Some show ?thesis by simp
  qed
qed

lemma filtered_iff_spans_nonempty:
  assumes "trim query \<noteq> []"
  shows "e \<in> set (filteredEvents evs query)
           \<longleftrightarrow> e \<in> set evs \<and> kind e = 1
               \<and> (\<exists>sp. highlight_spans e query = Some sp \<and> sp \<noteq> [])"
proof -
  let ?t = "content e" and ?ql = "toLowerCase (trim query)"
  from assms have q: "?ql \<noteq> []" "0 < length (trim query)"
    by (simp_all add: toLowerCase_Nil_iff)
  from highlight_loop_match [OF q, of ?t "toLowerCase ?t" 0 "[]"]
  obtain parts li where r:
    "highlight_loop ?t (toLowerCase ?t) ?ql (length (trim query)) 0 [] = Some (parts, li)"
    "list_ex isMatch parts \<longleftrightarrow> indexOf (toLowerCase ?t) ?ql 0 \<noteq> None"
    by auto
  let ?parts' = "if li < length ?t then parts @ [Part (slice_from ?t li) False] else parts"
  let ?res = "if length ?parts' > 0 then ?parts' else [Part ?t False]"
  have "list_ex isMatch ?res \<longleftrightarrow> list_ex isMatch parts" by auto
  with r(2) have "spans_from 0 ?res \<noteq> [] \<longleftrightarrow> includes_str (toLowerCase ?t) ?ql"
    by (simp only: spans_from_Nil_iff includes_str_def not_not)
  moreover from assms r(1) have "highlight_spans e query = Some (spans_from 0 ?res)"
    by (simp add: highlight_spans_def highlight_parts_def splitTextForHighlight_def trim_idem
                  Let_def)
  ultimately show ?thesis using assms
    by (auto simp: filteredEvents_def Let_def)
qed

text \<open>
  C6: the spans are to be the occurrences of the query in the payload. For the payload
  made of the capital I with a dot above (code unit 304) and \<^verbatim>\<open>x\<close>, and the query
  \<^verbatim>\<open>x\<close>, the lowered payload has three code units and \<^verbatim>\<open>x\<close> is found in it at 2;
  lines 181 to 185 cut the payload itself there: the whole payload is left unmarked and
  the marked part is empty, the span [2,2), where the occurrence in the payload is
  [1,2). The document is in the filtered view.
\<close>

theorem highlight_spans_dotted_capital:
  "content dotted_post = [304, 120]
   \<and> toLowerCase (content dotted_post) = [105, 775, 120]
   \<and> filteredEvents [dotted_post] (js ''x'') = [dotted_post]
   \<and> highlight_parts dotted_post (js ''x'') = Some [Part [304, 120] False, Part [] True]
   \<and> highlight_spans dotted_post (js ''x'') = Some [(2, 2)]
   \<and> occurrence_spans (js ''x'') 0 (content dotted_post) = [(1, 2)]"
proof -
  have a: "content dotted_post = [304, 120]
     \<and> toLowerCase (content dotted_post) = [105, 775, 120]
     \<and> filteredEvents [dotted_post] (js ''x'') = [dotted_post]
     \<and> occurrence_spans (js ''x'') 0 (content dotted_post) = [(1, 2)]" by code_simp
  have b: "highlight_parts dotted_post (js ''x'') = Some [Part [304, 120] False, Part [] True]"
    by (simp add: highlight_parts_def splitTextForHighlight_def dotted_post_def js_def trim_def
                  is_space_def toLowerCase_def to_lower_unit_def highlight_loop.simps indexOf_def
                  slice_def slice_from_def)
  then have c: "highlight_spans dotted_post (js ''x'') = Some [(2, 2)]"
    by (simp add: highlight_spans_def)
  from a b c show ?thesis by blast
qed

text \<open>
  The scan of the specification does what its words say: every span it records is an
  occurrence of the query, as long as the query, and the spans follow one another
  without overlap.
\<close>

lemma occurrence_spans_sound:
  "(a, b) \<in> set (occurrence_spans q off rest) \<Longrightarrow>
     off \<le> a \<and> b = a + length q \<and> take (length q) (drop (a - off) rest) = q"
proof (induction q off rest rule: occurrence_spans.induct)
  case (1 q off rest)
  show ?case
  proof (cases "q = [] \<or> rest = []")
    case True
    with "1.prems" show ?thesis by (subst (asm) occurrence_spans.simps) simp
  next
    case False
    then obtain c cs where rest: "rest = c # cs" and q: "q \<noteq> []" by (cases rest) auto
    show ?thesis
    proof (cases "prefix q rest")
      case True
      with "1.prems" False
      consider "(a, b) = (off, off + length q)"
        | "(a, b) \<in> set (occurrence_spans q (off + length q) (drop (length q) rest))"
        by (subst (asm) occurrence_spans.simps) auto
      then show ?thesis
      proof cases
        case 1
        with True show ?thesis by (auto simp: prefix_def)
      next
        case 2
        from "1.IH"(1) [OF False True 2]
        have ih: "off + length q \<le> a" "b = a + length q"
          "take (length q) (drop (a - (off + length q)) (drop (length q) rest)) = q" by blast+
        from ih(1) have "a - (off + length q) + length q = a - off" by arith
        with ih(3) have "take (length q) (drop (a - off) rest) = q" by simp
        with ih(1,2) show ?thesis by simp
      qed
    next
      case np: False
      with "1.prems" False have "(a, b) \<in> set (occurrence_spans q (Suc off) (tl rest))"
        by (subst (asm) occurrence_spans.simps) auto
      from "1.IH"(2) [OF False np this]
      have ih: "Suc off \<le> a" "b = a + length q"
        "take (length q) (drop (a - Suc off) (tl rest)) = q"
        by blast+
      from ih(1) have "a - off = Suc (a - Suc off)" by arith
      with ih(3) rest have "take (length q) (drop (a - off) rest) = q" by simp
      with ih(1,2) show ?thesis by simp
    qed
  qed
qed

lemma occurrence_spans_disjoint:
  "sorted_wrt (\<lambda>x y. snd x \<le> fst y) (occurrence_spans q off rest)"
proof (induction q off rest rule: occurrence_spans.induct)
  case (1 q off rest)
  show ?case
  proof (cases "q = [] \<or> rest = []")
    case True
    then show ?thesis by (subst occurrence_spans.simps) simp
  next
    case False
    show ?thesis
    proof (cases "prefix q rest")
      case True
      have "\<forall>y \<in> set (occurrence_spans q (off + length q) (drop (length q) rest)). off + length q \<le> fst y"
        using occurrence_spans_sound by fastforce
      with "1.IH"(1) [OF False True] False True show ?thesis
        by (subst occurrence_spans.simps) simp
    next
      case np: False
      with "1.IH"(2) [OF False np] False show ?thesis
        by (subst occurrence_spans.simps) simp
    qed
  qed
qed

text \<open>
  The function on its own measures a match by the length of the query as it was passed
  (line 184), not by the trimmed query it looked for; the template passes the trimmed
  query, where the two lengths agree. Called with a query that ends in a space it
  marks one character too many and misses the second occurrence.
\<close>

lemma splitTextForHighlight_untrimmed_query:
  "splitTextForHighlight (js ''concatcat'') (js ''cat '')
     = Some [Part (js ''con'') False, Part (js ''catc'') True, Part (js ''at'') False]"
  by (simp add: splitTextForHighlight_def js_def trim_def is_space_def toLowerCase_def
                to_lower_unit_def highlight_loop.simps indexOf_def slice_def slice_from_def)

section \<open>Properties of the streaming merge loop\<close>

lemma first_delivery_append:
  "i \<in> id_ev ` set ds \<Longrightarrow> first_delivery (ds @ rest) i = first_delivery ds i"
  by (auto simp: first_delivery_def takeWhile_append1)

lemma first_delivery_new:
  "id_ev e \<notin> id_ev ` set ds \<Longrightarrow> first_delivery (ds @ [e]) (id_ev e) = length ds"
proof -
  assume "id_ev e \<notin> id_ev ` set ds"
  then have "\<forall>x \<in> set ds. id_ev x \<noteq> id_ev e" by (metis image_eqI)
  then have "takeWhile (\<lambda>x. id_ev x \<noteq> id_ev e) (ds @ [e]) = ds"
    by (simp add: takeWhile_append2)
  then show ?thesis by (simp add: first_delivery_def)
qed

lemma first_delivery_less:
  "i \<in> id_ev ` set ds \<Longrightarrow> first_delivery ds i < length ds"
  unfolding first_delivery_def
  by (induction ds) auto

lemma before_in_feed_append:
  "id_ev a \<in> id_ev ` set ds \<Longrightarrow> id_ev b \<in> id_ev ` set ds \<Longrightarrow>
     before_in_feed (ds @ rest) a b = before_in_feed ds a b"
  by (simp add: before_in_feed_def first_delivery_append)

lemma sorted_wrt_before_append:
  assumes "sorted_wrt (before_in_feed ds) feed" and "id_ev ` set feed \<subseteq> id_ev ` set ds"
  shows "sorted_wrt (before_in_feed (ds @ rest)) feed"
proof (rule sorted_wrt_mono_rel [OF _ assms(1)])
  fix a b assume "a \<in> set feed" "b \<in> set feed" "before_in_feed ds a b"
  with assms(2) show "before_in_feed (ds @ rest) a b"
    by (subst before_in_feed_append) auto
qed

lemma set_insert_descending: "set (insert_descending e feed) = insert e (set feed)"
  by (induction feed) auto

lemma sorted_insert_descending:
  assumes "\<And>a b. R a b \<Longrightarrow> created_at a \<ge> created_at b"
    and "\<And>b. b \<in> set feed \<Longrightarrow> created_at b \<ge> created_at e \<Longrightarrow> R b e"
    and "\<And>b. b \<in> set feed \<Longrightarrow> created_at e > created_at b \<Longrightarrow> R e b"
    and "sorted_wrt R feed"
  shows "sorted_wrt R (insert_descending e feed)"
  using assms(2-4)
proof (induction feed)
  case Nil
  then show ?case by simp
next
  case (Cons b bs)
  show ?case
  proof (cases "created_at e > created_at b")
    case True
    have "R e x" if "x \<in> set (b # bs)" for x
    proof -
      from that Cons.prems(3) assms(1) have "created_at x \<le> created_at b" by auto
      with True that show ?thesis by (intro Cons.prems(2)) auto
    qed
    with True Cons.prems(3) show ?thesis by simp
  next
    case False
    then have "R b e" by (intro Cons.prems(1)) auto
    moreover have "sorted_wrt R (insert_descending e bs)"
      using Cons.prems by (intro Cons.IH) auto
    ultimately show ?thesis using False Cons.prems(3)
      by (auto simp: set_insert_descending)
  qed
qed

lemma distinct_insert_descending:
  "distinct (map id_ev feed) \<Longrightarrow> id_ev e \<notin> id_ev ` set feed \<Longrightarrow>
     distinct (map id_ev (insert_descending e feed))"
  by (induction feed) (auto simp: set_insert_descending)

lemma before_in_feed_desc: "before_in_feed ds a b \<Longrightarrow> created_at a \<ge> created_at b"
  by (auto simp: before_in_feed_def)

lemma feed_ok_step:
  assumes "feed_ok ds feed"
  shows "feed_ok (ds @ [e]) (insertEventIntoDescendingList feed e)"
proof (cases "id_ev e \<in> id_ev ` set feed")
  case True
  then have "list_ex (\<lambda>b. id_ev b = id_ev e) feed" by (auto simp: list_ex_iff)
  then have same: "insertEventIntoDescendingList feed e = feed"
    by (simp add: insertEventIntoDescendingList_def)
  from assms have "sorted_wrt (before_in_feed (ds @ [e])) feed"
    by (auto simp: feed_ok_def intro: sorted_wrt_before_append)
  moreover from True assms have "id_ev ` set feed = id_ev ` set (ds @ [e])"
    by (auto simp: feed_ok_def)
  ultimately show ?thesis using assms by (simp add: feed_ok_def same)
next
  case False
  with assms have new: "id_ev e \<notin> id_ev ` set ds" by (simp add: feed_ok_def)
  from assms have sub: "id_ev ` set feed \<subseteq> id_ev ` set ds" by (simp add: feed_ok_def)
  let ?R = "before_in_feed (ds @ [e])"
  have s: "sorted_wrt ?R feed"
    using assms sub by (auto simp: feed_ok_def intro: sorted_wrt_before_append)
  have old: "first_delivery (ds @ [e]) (id_ev b) < length ds" if "b \<in> set feed" for b
  proof -
    from that sub have "id_ev b \<in> id_ev ` set ds" by auto
    then show ?thesis by (simp add: first_delivery_append first_delivery_less)
  qed
  have "sorted_wrt ?R (insert_descending e feed)"
  proof (rule sorted_insert_descending [OF _ _ _ s])
    show "created_at a \<ge> created_at b" if "?R a b" for a b
      using that by (rule before_in_feed_desc)
    show "?R b e" if "b \<in> set feed" "created_at b \<ge> created_at e" for b
      using that old [OF that(1)] first_delivery_new [OF new]
      by (auto simp: before_in_feed_def)
    show "?R e b" if "b \<in> set feed" "created_at e > created_at b" for b
      using that by (simp add: before_in_feed_def)
  qed
  moreover have "distinct (map id_ev (insert_descending e feed))"
    using False assms by (intro distinct_insert_descending) (auto simp: feed_ok_def)
  moreover have "\<not> list_ex (\<lambda>b. id_ev b = id_ev e) feed"
  proof
    assume "list_ex (\<lambda>b. id_ev b = id_ev e) feed"
    then obtain b where "b \<in> set feed" "id_ev b = id_ev e" by (auto simp: list_ex_iff)
    then have "id_ev e \<in> id_ev ` set feed" by (metis image_eqI)
    with False show False by contradiction
  qed
  then have "insertEventIntoDescendingList feed e = insert_descending e feed"
    by (simp add: insertEventIntoDescendingList_def)
  moreover from assms have "id_ev ` set (insert_descending e feed) = id_ev ` set (ds @ [e])"
    by (auto simp: feed_ok_def set_insert_descending)
  ultimately show ?thesis by (simp add: feed_ok_def)
qed


lemma merge_loop_snoc:
  "merge_loop feed (ds @ [e]) = insertEventIntoDescendingList (merge_loop feed ds) e"
  by (simp add: merge_loop_def)

lemma feed_ok_merge_loop: "feed_ok ds (merge_loop [] ds)"
proof (induction ds rule: rev_induct)
  case Nil
  then show ?case by (simp add: feed_ok_def merge_loop_def)
next
  case (snoc e ds)
  then show ?case by (simp add: merge_loop_snoc feed_ok_step)
qed

lemma feed_ok_snapshots:
  "feed_ok ds feed \<Longrightarrow> s \<in> set (feed_snapshots feed rest) \<Longrightarrow>
     sorted_wrt (before_in_feed (ds @ rest)) s \<and> distinct (map id_ev s)"
proof (induction rest arbitrary: ds feed)
  case Nil
  then show ?case by simp
next
  case (Cons e rest)
  let ?f = "insertEventIntoDescendingList feed e"
  from Cons.prems(1) have ok: "feed_ok (ds @ [e]) ?f" by (rule feed_ok_step)
  from Cons.prems(2) consider "s = ?f" | "s \<in> set (feed_snapshots ?f rest)"
    by (auto simp: Let_def)
  then show ?case
  proof cases
    case 1
    from ok have "sorted_wrt (before_in_feed (ds @ [e])) ?f" "id_ev ` set ?f \<subseteq> id_ev ` set (ds @ [e])"
      by (simp_all add: feed_ok_def)
    then have "sorted_wrt (before_in_feed ((ds @ [e]) @ rest)) ?f"
      by (rule sorted_wrt_before_append)
    with ok 1 show ?thesis by (simp add: feed_ok_def)
  next
    case 2
    from Cons.IH [OF ok 2] show ?thesis by simp
  qed
qed

lemma one_copy:
  "distinct (map f xs) \<Longrightarrow> x \<in> set xs \<Longrightarrow> length (filter (\<lambda>b. f b = f x) xs) = 1"
proof (induction xs)
  case Nil
  then show ?case by simp
next
  case (Cons y ys)
  show ?case
  proof (cases "f y = f x")
    case True
    with Cons.prems have "\<forall>b \<in> set ys. f b \<noteq> f x" by (metis distinct.simps(2) image_eqI list.simps(9) set_map)
    then have "filter (\<lambda>b. f b = f x) ys = []" by (simp add: filter_empty_conv)
    with True show ?thesis by simp
  next
    case False
    with Cons show ?thesis by auto
  qed
qed

text \<open>
  C1: whatever documents the merge loop consumes, every value the feed takes after an
  insertion is in descending order of timestamp, documents with equal timestamps in the
  order of their first delivery, and holds no two documents with the same identity; a
  document that was delivered, once or more, has exactly one copy in the final feed.
\<close>

theorem merge_feed_sorted_unique:
  "(\<forall>feed \<in> set (feed_snapshots [] delivered).
       sorted_wrt (before_in_feed delivered) feed \<and> distinct (map id_ev feed))
   \<and> (e \<in> set delivered \<longrightarrow>
        length (filter (\<lambda>b. id_ev b = id_ev e) (merge_loop [] delivered)) = 1)
   \<and> merge_loop [] [e, e] = [e]"
proof -
  have start: "feed_ok [] []" by (simp add: feed_ok_def)
  have a: "\<forall>feed \<in> set (feed_snapshots [] delivered).
       sorted_wrt (before_in_feed delivered) feed \<and> distinct (map id_ev feed)"
    using feed_ok_snapshots [OF start, of _ delivered] by simp
  have b: "length (filter (\<lambda>b. id_ev b = id_ev e) (merge_loop [] delivered)) = 1"
    if "e \<in> set delivered"
  proof -
    note ok = feed_ok_merge_loop [of delivered]
    from that ok obtain x where x: "x \<in> set (merge_loop [] delivered)" "id_ev x = id_ev e"
      unfolding feed_ok_def by (metis image_iff)
    from ok have "distinct (map id_ev (merge_loop [] delivered))" by (simp add: feed_ok_def)
    from one_copy [OF this x(1)] x(2) show ?thesis by simp
  qed
  have c: "merge_loop [] [e, e] = [e]"
    by (simp add: merge_loop_def insertEventIntoDescendingList_def)
  from a b c show ?thesis by blast
qed

theorem merge_feed_sorted_unique_witness:
  "feed_snapshots [] [post_a, post_b, post_a, post_c]
     = [[post_a], [post_a, post_b], [post_a, post_b], [post_c, post_a, post_b]]
   \<and> sorted_wrt (before_in_feed [post_a, post_b, post_a, post_c]) [post_c, post_a, post_b]
   \<and> distinct (map id_ev [post_c, post_a, post_b])
   \<and> post_a \<in> set [post_a, post_b, post_a, post_c]
   \<and> length (filter (\<lambda>b. id_ev b = id_ev post_a) (merge_loop [] [post_a, post_b, post_a, post_c])) = 1
   \<and> merge_loop [] [post_a, post_a] = [post_a]"
proof -
  have s: "feed_snapshots [] [post_a, post_b, post_a, post_c]
     = [[post_a], [post_a, post_b], [post_a, post_b], [post_c, post_a, post_b]]" by code_simp
  have m: "post_a \<in> set [post_a, post_b, post_a, post_c]" by simp
  from merge_feed_sorted_unique [of "[post_a, post_b, post_a, post_c]" post_a] s m
  show ?thesis by simp
qed

text \<open>
  The feed of a fetch is the result of the merge loop, started from the empty list of
  line 98, on the posts the iterator delivered, or still empty if the fetch ended before.
\<close>

lemma fetch_try_events:
  "events st = [] \<Longrightarrow>
     events (fst (fetch_try decode canParse discovery posts st)) = []
     \<or> events (fst (fetch_try decode canParse discovery posts st)) = merge_loop [] (fst posts)"
  by (auto simp: fetch_try_def log_effect_def Let_def discovery_loop_frame
           split: sum.splits option.splits)

lemma fetchEvents_events:
  "trim (publicKey st) \<noteq> [] \<Longrightarrow>
     events (fetchEvents decode canParse discovery posts st) = []
     \<or> events (fetchEvents decode canParse discovery posts st) = merge_loop [] (fst posts)"
proof -
  assume ne: "trim (publicKey st) \<noteq> []"
  let ?s1 = "log_effect FetcherInit
      (st\<lparr>beforeLoad := False, loading := True, error := None, events := [],
          profileEvents := Map.empty, relayListEvent := None, searchQuery := []\<rparr>)"
  have "events ?s1 = []" by (simp add: log_effect_def)
  from fetch_try_events [OF this, of decode canParse discovery posts] ne
  show ?thesis
    by (auto simp: fetchEvents_def Let_def split_beta log_effect_def split: option.splits)
qed

end
